theory Spec2Isabelle
  imports Main "HOL-Library.Word"
begin

unbundle bit_operations_syntax

section \<open>DSA key and signature codec (pkcs11/util/dsa.py)\<close>

text \<open>
  The module converts DSA domain parameters, public keys and signatures between the
  PKCS #11 representation (attribute maps and raw byte strings) and the DER structures
  of RFC 3279. Byte strings are lists of octets, Python's unbounded integers are
  \<open>int\<close>, and every exception is a value of \<open>error\<close>:
  \<^item> \<open>DECODE_ERROR\<close>: the \<open>PyAsn1Error\<close> (and its subclass \<open>SubstrateUnderrunError\<close>)
    raised by \<open>decoder.decode\<close>;
  \<^item> \<open>ENCODE_ERROR\<close>: the \<open>PyAsn1Error\<close> raised by \<open>encoder.encode\<close>;
  \<^item> \<open>MISSING_ATTRIBUTE\<close>: the \<open>KeyError\<close> of a lookup \<open>obj[key]\<close>;
  \<^item> \<open>OVERFLOW\<close>: the \<open>OverflowError\<close> of \<open>int.to_bytes\<close>;
  \<^item> \<open>INVALID_INPUT\<close>: the failure of the big-integer helper on a negative integer.
\<close>

type_synonym byte = "8 word"
type_synonym bytes = "byte list"

datatype error = DECODE_ERROR | ENCODE_ERROR | MISSING_ATTRIBUTE | INVALID_INPUT | OVERFLOW

text \<open>Sequencing of two fallible steps: the first exception raised ends the call.\<close>

definition and_then :: "error + 'a \<Rightarrow> ('a \<Rightarrow> error + 'b) \<Rightarrow> error + 'b" where
  "and_then x f = (case x of Inl e \<Rightarrow> Inl e | Inr v \<Rightarrow> f v)"

text \<open>
  Modelled from the spec: the enumeration \<open>Attribute\<close> of \<open>pkcs11/constants.py\<close>, which is
  not among the sources; the spec gives the closed enumeration BASE, PRIME, SUBPRIME, VALUE.
\<close>

datatype Attribute = BASE | PRIME | SUBPRIME | VALUE

subsection \<open>Python's integer conversions\<close>

text \<open>\<^verbatim>\<open>int.from_bytes(b, byteorder='big')\<close>: the unsigned big-endian value; \<open>b''\<close> is 0.\<close>

definition int_from_bytes :: "bytes \<Rightarrow> int" where
  "int_from_bytes b = foldl (\<lambda>acc x. acc * 256 + uint x) 0 b"

text \<open>The \<open>n\<close> low-order octets of the two's complement of \<open>v\<close>, most significant first.\<close>

fun be_bytes :: "nat \<Rightarrow> int \<Rightarrow> bytes" where
  "be_bytes 0 v = []"
| "be_bytes (Suc n) v = be_bytes n (v div 256) @ [word_of_int (v mod 256)]"

text \<open>
  \<^verbatim>\<open>v.to_bytes(n, byteorder='big')\<close>: \<open>OverflowError\<close> for a negative \<open>v\<close> and for a
  \<open>v\<close> that needs more than \<open>n\<close> octets.
\<close>

definition int_to_bytes :: "int \<Rightarrow> nat \<Rightarrow> error + bytes" where
  "int_to_bytes v n = (if v < 0 \<or> 256 ^ n \<le> v then Inl OVERFLOW else Inr (be_bytes n v))"

text \<open>\<^verbatim>\<open>v.to_bytes(n, byteorder='big', signed=True)\<close>: two's complement in \<open>n\<close> octets.\<close>

definition int_to_bytes_signed :: "int \<Rightarrow> nat \<Rightarrow> error + bytes" where
  "int_to_bytes_signed v n =
     (if 2 * v < - (256 ^ n) \<or> 256 ^ n \<le> 2 * v then Inl OVERFLOW else Inr (be_bytes n v))"

text \<open>\<^verbatim>\<open>int.from_bytes(b, byteorder='big', signed=True)\<close>.\<close>

definition int_from_bytes_signed :: "bytes \<Rightarrow> int" where
  "int_from_bytes_signed b =
     (case b of [] \<Rightarrow> 0
      | x # _ \<Rightarrow> if bit x 7 then int_from_bytes b - 256 ^ length b else int_from_bytes b)"

text \<open>
  The largest size of a Python object (\<open>sys.maxsize\<close> on a 64-bit build): no byte string
  the module receives is longer.
\<close>

definition PY_SSIZE_T_MAX :: nat where
  "PY_SSIZE_T_MAX = 2 ^ 63 - 1"

text \<open>\<^verbatim>\<open>int.bit_length()\<close>: the number of bits of the absolute value.\<close>

function bit_length_abs :: "int \<Rightarrow> nat" where
  "bit_length_abs v = (if v \<le> 0 then 0 else Suc (bit_length_abs (v div 2)))"
  by pat_completeness auto
termination
  by (relation "measure nat") auto

declare bit_length_abs.simps [simp del]

definition bit_length :: "int \<Rightarrow> nat" where
  "bit_length v = bit_length_abs \<bar>v\<bar>"

subsection \<open>The big-integer helper\<close>

text \<open>
  Modelled from the spec: the helper \<open>biginteger\<close> of \<open>pkcs11/util/__init__.py\<close>, which is not
  among the sources. The spec (4.1, encode): the shortest big-endian byte sequence
  representing the value, with no leading zero byte unless the value is zero, in which
  case the result is a single zero byte; INVALID_INPUT for a negative integer.
\<close>

definition biginteger :: "int \<Rightarrow> error + bytes" where
  "biginteger v =
     (if v < 0 then Inl INVALID_INPUT
      else if v = 0 then Inr [0]
      else Inr (be_bytes ((bit_length v + 7) div 8) v))"

subsection \<open>The DER codec of pyasn1\<close>

text \<open>
  \<open>encoder.encode\<close> and \<open>decoder.decode\<close> of \<open>pyasn1.codec.der\<close> belong to a library
  outside the repository. They are modelled here, after the library's encoder and
  decoder, for the three schemas of \<open>pyasn1_modules.rfc3279\<close> the module uses:
  \<open>DSAPublicKey ::= INTEGER\<close>, \<open>Dss-Parms ::= SEQUENCE { p, q, g INTEGER }\<close> and
  \<open>Dss-Sig-Value ::= SEQUENCE { r, s INTEGER }\<close>. The encoder writes definite lengths
  and minimal INTEGER contents; the decoder reads one value from the front of its input
  and returns it with the octets that follow.
\<close>

text \<open>
  pyasn1's \<open>to_bytes(value, signed=True)\<close>: the bit length is raised by one when it is
  a multiple of 8, to leave room for the sign bit, and rounded up to whole octets.
\<close>

definition to_bytes_signed :: "int \<Rightarrow> error + bytes" where
  "to_bytes_signed v =
     (let l = bit_length v;
          l = (if l mod 8 = 0 then l + 1 else l)
      in int_to_bytes_signed v (l div 8 + (if l mod 8 \<noteq> 0 then 1 else 0)))"

text \<open>The content octets of an INTEGER: zero is the single octet 0.\<close>

definition encodeValue :: "int \<Rightarrow> error + bytes" where
  "encodeValue v = (if v = 0 then Inr [0] else to_bytes_signed v)"

text \<open>The octets of a length in the long form: the loop of \<open>encodeLength\<close>.\<close>

fun length_octets :: "nat \<Rightarrow> bytes" where
  "length_octets n = (if n = 0 then [] else length_octets (n div 256) @ [word_of_nat (n mod 256)])"

declare length_octets.simps [simp del]

text \<open>
  \<open>encodeLength\<close>: the short form below 128, otherwise the long form; more than 126
  length octets raise \<open>PyAsn1Error\<close>.
\<close>

definition encodeLength :: "nat \<Rightarrow> error + bytes" where
  "encodeLength n =
     (if n < 0x80 then Inr [word_of_nat n]
      else let substrate = length_octets n; substrateLen = length substrate
           in if substrateLen > 126 then Inl ENCODE_ERROR
              else Inr (word_of_nat (0x80 OR substrateLen) # substrate))"

text \<open>Identifier octet, length octets and content octets of one value.\<close>

definition encode_tlv :: "byte \<Rightarrow> bytes \<Rightarrow> error + bytes" where
  "encode_tlv t content =
     and_then (encodeLength (length content)) (\<lambda>l. Inr (t # l @ content))"

definition encode_integer :: "int \<Rightarrow> error + bytes" where
  "encode_integer v = and_then (encodeValue v) (encode_tlv 0x02)"

text \<open>The components of a SEQUENCE, encoded one after the other in the schema's order.\<close>

fun encode_components :: "int list \<Rightarrow> error + bytes" where
  "encode_components [] = Inr []"
| "encode_components (v # vs) =
     and_then (encode_integer v) (\<lambda>x. and_then (encode_components vs) (\<lambda>xs. Inr (x @ xs)))"

definition encode_sequence :: "int list \<Rightarrow> error + bytes" where
  "encode_sequence vs = and_then (encode_components vs) (encode_tlv 0x30)"

text \<open>
  A decoded tag: class and format are the masked bits of the identifier octet, the
  number is unbounded in the long form.
\<close>

record Tag =
  tagClass :: byte
  tagFormat :: byte
  tagId :: nat

text \<open>The long form of a tag number: seven bits per octet until one has its top bit clear.\<close>

fun decodeLongTag :: "nat \<Rightarrow> bytes \<Rightarrow> error + nat \<times> bytes" where
  "decodeLongTag tid [] = Inl DECODE_ERROR"
| "decodeLongTag tid (integerTag # substrate) =
     (let tid' = push_bit 7 tid OR unat (integerTag AND 0x7F)
      in if integerTag AND 0x80 = 0 then Inr (tid', substrate)
         else decodeLongTag tid' substrate)"

definition decodeTag :: "bytes \<Rightarrow> error + Tag \<times> bytes" where
  "decodeTag substrate =
     (case substrate of
        [] \<Rightarrow> Inl DECODE_ERROR
      | firstOctet # rest \<Rightarrow>
          if firstOctet AND 0x1F = 0x1F
          then and_then (decodeLongTag 0 rest)
                 (\<lambda>(tid, rest'). Inr (\<lparr>tagClass = firstOctet AND 0xC0,
                                        tagFormat = firstOctet AND 0x20, tagId = tid\<rparr>, rest'))
          else Inr (\<lparr>tagClass = firstOctet AND 0xC0, tagFormat = firstOctet AND 0x20,
                     tagId = unat (firstOctet AND 0x1F)\<rparr>, rest))"

text \<open>
  The length octets: short form, or long form of any size (a non-minimal long form is
  accepted); the indefinite form 0x80 is refused by the DER decoder.
\<close>

definition decodeLength :: "bytes \<Rightarrow> error + nat \<times> bytes" where
  "decodeLength substrate =
     (case substrate of
        [] \<Rightarrow> Inl DECODE_ERROR
      | firstOctet # rest \<Rightarrow>
          if firstOctet < 128 then Inr (unat firstOctet, rest)
          else if firstOctet > 128 then
            let size = unat (firstOctet AND 0x7F); encodedLength = take size rest
            in if length encodedLength \<noteq> size then Inl DECODE_ERROR
               else Inr (foldl (\<lambda>l x. push_bit 8 l OR unat x) 0 encodedLength, drop size rest)
          else Inl DECODE_ERROR)"

text \<open>
  Tag and length of the next value, and the substrate after them, which must hold at
  least as many octets as the length says.
\<close>

definition decode_header :: "bytes \<Rightarrow> error + Tag \<times> nat \<times> bytes" where
  "decode_header substrate =
     and_then (decodeTag substrate) (\<lambda>(t, rest).
     and_then (decodeLength rest) (\<lambda>(l, rest').
       if length rest' < l then Inl DECODE_ERROR else Inr (t, l, rest')))"

text \<open>
  Decoding against the INTEGER spec: the tag must be universal 2 (tags compare by class
  and number), the value decoder requires the primitive format. Empty content is 0,
  other content is a two's complement number of any size. The octets after the value
  are returned with it.
\<close>

definition decode_integer :: "bytes \<Rightarrow> error + int \<times> bytes" where
  "decode_integer substrate =
     and_then (decode_header substrate) (\<lambda>(t, l, rest).
       if tagClass t \<noteq> 0 \<or> tagId t \<noteq> 2 then Inl DECODE_ERROR
       else if tagFormat t \<noteq> 0 then Inl DECODE_ERROR
       else let head = take l rest; tail = drop l rest
            in Inr (if head = [] then 0 else int_from_bytes_signed head, tail))"

text \<open>
  The loop of the SEQUENCE decoder over the content octets \<open>head\<close>, for a schema of
  \<open>n\<close> required INTEGER fields: a component beyond the schema is an error.
\<close>

function decode_components :: "nat \<Rightarrow> nat \<Rightarrow> bytes \<Rightarrow> error + int list" where
  "decode_components idx n head =
     (if head = [] then Inr []
      else if n \<le> idx then Inl DECODE_ERROR
      else and_then (decode_integer head) (\<lambda>(component, head').
           and_then (decode_components (idx + 1) n head') (\<lambda>cs. Inr (component # cs))))"
  by pat_completeness auto
termination
  by (relation "measure (\<lambda>(idx, n, head). n - idx)") auto

declare decode_components.simps [simp del]

text \<open>
  Decoding against a SEQUENCE spec of \<open>n\<close> required INTEGER fields: universal tag 16 in
  the constructed format; after the loop every field must have been seen.
\<close>

definition decode_sequence :: "nat \<Rightarrow> bytes \<Rightarrow> error + int list \<times> bytes" where
  "decode_sequence n substrate =
     and_then (decode_header substrate) (\<lambda>(t, l, rest).
       if tagClass t \<noteq> 0 \<or> tagId t \<noteq> 16 then Inl DECODE_ERROR
       else if tagFormat t \<noteq> 0x20 then Inl DECODE_ERROR
       else let head = take l rest; tail = drop l rest
            in and_then (decode_components 0 n head) (\<lambda>cs.
                 if length cs \<noteq> n then Inl DECODE_ERROR else Inr (cs, tail)))"

subsection \<open>The schemas of RFC 3279\<close>

record Dss_Parms =
  p :: int
  q :: int
  g :: int

record Dss_Sig_Value =
  r :: int
  s :: int

text \<open>\<^verbatim>\<open>encoder.encode(asn1)\<close> for each schema; the fields go out in the schema's order.\<close>

definition encode_DSAPublicKey :: "int \<Rightarrow> error + bytes" where
  "encode_DSAPublicKey y = encode_integer y"

definition encode_Dss_Parms :: "Dss_Parms \<Rightarrow> error + bytes" where
  "encode_Dss_Parms asn1 = encode_sequence [p asn1, q asn1, g asn1]"

definition encode_Dss_Sig_Value :: "Dss_Sig_Value \<Rightarrow> error + bytes" where
  "encode_Dss_Sig_Value asn1 = encode_sequence [r asn1, s asn1]"

text \<open>
  \<^verbatim>\<open>decoder.decode(der, asn1Spec=...)\<close> for each schema: the decoded value and the
  octets that follow it in \<open>der\<close>.
\<close>

definition decode_DSAPublicKey :: "bytes \<Rightarrow> error + int \<times> bytes" where
  "decode_DSAPublicKey der = decode_integer der"

definition decode_Dss_Parms :: "bytes \<Rightarrow> error + Dss_Parms \<times> bytes" where
  "decode_Dss_Parms der =
     and_then (decode_sequence 3 der) (\<lambda>(cs, rest).
       case cs of [a, b, c] \<Rightarrow> Inr (\<lparr>p = a, q = b, g = c\<rparr>, rest) | _ \<Rightarrow> Inl DECODE_ERROR)"

definition decode_Dss_Sig_Value :: "bytes \<Rightarrow> error + Dss_Sig_Value \<times> bytes" where
  "decode_Dss_Sig_Value der =
     and_then (decode_sequence 2 der) (\<lambda>(cs, rest).
       case cs of [a, b] \<Rightarrow> Inr (\<lparr>r = a, s = b\<rparr>, rest) | _ \<Rightarrow> Inl DECODE_ERROR)"

subsection \<open>The functions of dsa.py\<close>

text \<open>\<^verbatim>\<open>obj[key]\<close> on an attribute map: \<open>KeyError\<close> for an absent key.\<close>

definition getitem :: "(Attribute \<rightharpoonup> bytes) \<Rightarrow> Attribute \<Rightarrow> error + bytes" where
  "getitem obj key = (case obj key of None \<Rightarrow> Inl MISSING_ATTRIBUTE | Some v \<Rightarrow> Inr v)"

definition decode_dsa_domain_parameters :: "bytes \<Rightarrow> error + (Attribute \<rightharpoonup> bytes)" where
  "decode_dsa_domain_parameters der =
     and_then (decode_Dss_Parms der) (\<lambda>(params, _).
     and_then (biginteger (g params)) (\<lambda>base.
     and_then (biginteger (p params)) (\<lambda>prime.
     and_then (biginteger (q params)) (\<lambda>subprime.
       Inr [BASE \<mapsto> base, PRIME \<mapsto> prime, SUBPRIME \<mapsto> subprime]))))"

definition encode_dsa_domain_parameters :: "(Attribute \<rightharpoonup> bytes) \<Rightarrow> error + bytes" where
  "encode_dsa_domain_parameters obj =
     and_then (getitem obj BASE) (\<lambda>base.
     and_then (getitem obj PRIME) (\<lambda>prime.
     and_then (getitem obj SUBPRIME) (\<lambda>subprime.
       encode_Dss_Parms \<lparr>p = int_from_bytes prime, q = int_from_bytes subprime,
                         g = int_from_bytes base\<rparr>)))"

definition encode_dsa_public_key :: "(Attribute \<rightharpoonup> bytes) \<Rightarrow> error + bytes" where
  "encode_dsa_public_key key =
     and_then (getitem key VALUE) (\<lambda>v. encode_DSAPublicKey (int_from_bytes v))"

definition decode_dsa_public_key :: "bytes \<Rightarrow> error + bytes" where
  "decode_dsa_public_key der =
     and_then (decode_DSAPublicKey der) (\<lambda>(asn1, _). biginteger asn1)"

definition encode_dsa_signature :: "bytes \<Rightarrow> error + bytes" where
  "encode_dsa_signature signature =
     (let part = length signature div 2;
          rb = take part signature;
          sb = drop part signature
      in encode_Dss_Sig_Value \<lparr>r = int_from_bytes rb, s = int_from_bytes sb\<rparr>)"

definition decode_dsa_signature :: "bytes \<Rightarrow> error + bytes" where
  "decode_dsa_signature der =
     and_then (decode_Dss_Sig_Value der) (\<lambda>(asn1, _).
     and_then (int_to_bytes (r asn1) 20) (\<lambda>rb.
     and_then (int_to_bytes (s asn1) 20) (\<lambda>sb.
       Inr (rb @ sb))))"

section \<open>Lemmas\<close>

subsection \<open>Sequencing\<close>

lemma and_then_Inr [simp]: "and_then (Inr v) f = f v"
  by (simp add: and_then_def)

lemma and_then_Inl [simp]: "and_then (Inl e) f = Inl e"
  by (simp add: and_then_def)

lemma and_then_eq_Inr:
  "and_then x f = Inr y \<longleftrightarrow> (\<exists>v. x = Inr v \<and> f v = Inr y)"
  by (cases x) simp_all

subsection \<open>Big-endian octets\<close>

lemma foldl_be_shift:
  fixes f :: "int \<Rightarrow> byte \<Rightarrow> int"
  defines "f \<equiv> \<lambda>acc x. acc * 256 + uint x"
  shows "foldl f a b = a * 256 ^ length b + foldl f 0 b"
proof (induction b arbitrary: a)
  case Nil
  show ?case by simp
next
  case (Cons x xs)
  have "foldl f a (x # xs) = foldl f (a * 256 + uint x) xs"
    by (simp add: f_def)
  also have "\<dots> = (a * 256 + uint x) * 256 ^ length xs + foldl f 0 xs"
    by (rule Cons.IH)
  finally have l: "foldl f a (x # xs) = (a * 256 + uint x) * 256 ^ length xs + foldl f 0 xs" .
  have "foldl f 0 (x # xs) = foldl f (uint x) xs"
    by (simp add: f_def)
  also have "\<dots> = uint x * 256 ^ length xs + foldl f 0 xs"
    by (rule Cons.IH)
  finally have r: "foldl f 0 (x # xs) = uint x * 256 ^ length xs + foldl f 0 xs" .
  show ?case
    unfolding l r by (simp add: algebra_simps)
qed

lemma int_from_bytes_Nil [simp]: "int_from_bytes [] = 0"
  by (simp add: int_from_bytes_def)

lemma int_from_bytes_Cons:
  "int_from_bytes (x # xs) = uint x * 256 ^ length xs + int_from_bytes xs"
  unfolding int_from_bytes_def by (simp add: foldl_be_shift [of "uint x"])

lemma int_from_bytes_snoc [simp]:
  "int_from_bytes (xs @ [x]) = int_from_bytes xs * 256 + uint x"
  by (simp add: int_from_bytes_def)

lemma uint_byte_bound: "uint (x::byte) < 256"
  using uint_bounded [of x] by simp

lemma int_from_bytes_nonneg: "0 \<le> int_from_bytes b"
  by (induction b rule: rev_induct) simp_all

lemma int_from_bytes_less: "int_from_bytes b < 256 ^ length b"
proof (induction b rule: rev_induct)
  case Nil
  show ?case by simp
next
  case (snoc x xs)
  have "int_from_bytes xs + 1 \<le> 256 ^ length xs"
    using snoc.IH by simp
  then have "(int_from_bytes xs + 1) * 256 \<le> 256 ^ length xs * 256"
    by (rule mult_right_mono) simp
  then show ?case
    using uint_byte_bound [of x] by (simp add: algebra_simps)
qed

lemma length_be_bytes [simp]: "length (be_bytes n v) = n"
  by (induction n arbitrary: v) simp_all

lemma int_from_bytes_be_bytes: "int_from_bytes (be_bytes n v) = v mod 256 ^ n"
proof (induction n arbitrary: v)
  case 0
  show ?case by simp
next
  case (Suc n)
  have "uint (word_of_int (v mod 256) :: byte) = v mod 256"
    by (simp add: uint_word_of_int take_bit_eq_mod)
  then have "int_from_bytes (be_bytes (Suc n) v) = (v div 256) mod 256 ^ n * 256 + v mod 256"
    by (simp add: Suc.IH)
  also have "\<dots> = v mod 256 ^ Suc n"
    using zmod_zmult2_eq [of "256 ^ n" v 256] by simp
  finally show ?case .
qed

lemma int_from_bytes_be_bytes_id:
  "0 \<le> v \<Longrightarrow> v < 256 ^ n \<Longrightarrow> int_from_bytes (be_bytes n v) = v"
  by (simp add: int_from_bytes_be_bytes)

lemma be_bytes_int_from_bytes: "be_bytes (length b) (int_from_bytes b) = b"
proof (induction b rule: rev_induct)
  case Nil
  show ?case by simp
next
  case (snoc x xs)
  have d: "(int_from_bytes xs * 256 + uint x) div 256 = int_from_bytes xs"
    using uint_byte_bound [of x] by simp
  have m: "(int_from_bytes xs * 256 + uint x) mod 256 = uint x"
    using uint_byte_bound [of x] by simp
  have "be_bytes (length (xs @ [x])) (int_from_bytes (xs @ [x])) =
          be_bytes (length xs) ((int_from_bytes xs * 256 + uint x) div 256)
            @ [word_of_int ((int_from_bytes xs * 256 + uint x) mod 256)]"
    by simp
  also have "\<dots> = be_bytes (length xs) (int_from_bytes xs) @ [word_of_int (uint x)]"
    by (simp only: d m)
  also have "\<dots> = xs @ [x]"
    by (simp add: snoc.IH)
  finally show ?case .
qed

lemma be_bytes_front:
  "be_bytes (Suc n) v = word_of_int (v div 256 ^ n mod 256) # be_bytes n v"
proof (induction n arbitrary: v)
  case 0
  show ?case by simp
next
  case (Suc n)
  have "be_bytes (Suc (Suc n)) v = be_bytes (Suc n) (v div 256) @ [word_of_int (v mod 256)]"
    by simp
  also have "\<dots> = (word_of_int (v div 256 div 256 ^ n mod 256) # be_bytes n (v div 256))
                      @ [word_of_int (v mod 256)]"
    by (simp only: Suc.IH)
  also have "\<dots> = word_of_int (v div 256 ^ Suc n mod 256) # be_bytes (Suc n) v"
    using zdiv_zmult2_eq [of "256 ^ n" v 256] by simp
  finally show ?case .
qed

subsection \<open>Bit lengths\<close>

lemma bit_length_abs_upper: "0 \<le> v \<Longrightarrow> v < 2 ^ bit_length_abs v"
proof (induction v rule: bit_length_abs.induct)
  case (1 v)
  show ?case
  proof (cases "v \<le> 0")
    case True
    with 1 show ?thesis by (simp add: bit_length_abs.simps [of v])
  next
    case False
    then have "v div 2 < 2 ^ bit_length_abs (v div 2)"
      using 1 by simp
    then have "v < 2 * 2 ^ bit_length_abs (v div 2)"
      by linarith
    with False show ?thesis
      by (simp add: bit_length_abs.simps [of v])
  qed
qed

lemma bit_length_abs_le: "0 \<le> v \<Longrightarrow> v < 2 ^ k \<Longrightarrow> bit_length_abs v \<le> k"
proof (induction k arbitrary: v)
  case 0
  then show ?case by (simp add: bit_length_abs.simps [of v])
next
  case (Suc k)
  show ?case
  proof (cases "v \<le> 0")
    case True
    then show ?thesis by (simp add: bit_length_abs.simps [of v])
  next
    case False
    have "v div 2 < 2 ^ k"
      using Suc.prems by simp
    moreover have "0 \<le> v div 2"
      using Suc.prems by simp
    ultimately have "bit_length_abs (v div 2) \<le> k"
      by (rule Suc.IH [rotated])
    with False show ?thesis
      by (simp add: bit_length_abs.simps [of v])
  qed
qed

lemma pow256: "(256::int) ^ n = 2 ^ (8 * n)"
  by (simp add: power_mult)

lemma bit_length_nonneg_less: "0 \<le> v \<Longrightarrow> 2 * v < 256 ^ (bit_length v div 8 + 1)"
proof -
  assume nonneg: "0 \<le> v"
  then have "v < 2 ^ bit_length v"
    using bit_length_abs_upper [of v] by (simp add: bit_length_def)
  then have "2 * v < 2 ^ (bit_length v + 1)"
    by simp
  also have "\<dots> \<le> (2::int) ^ (8 * (bit_length v div 8 + 1))"
    by (rule power_increasing) (presburger, simp)
  finally show ?thesis
    by (simp only: pow256)
qed

lemma to_bytes_signed_pos:
  "0 \<le> v \<Longrightarrow> to_bytes_signed v = Inr (be_bytes (bit_length v div 8 + 1) v)"
proof -
  assume nonneg: "0 \<le> v"
  let ?l = "bit_length v"
  let ?l' = "if ?l mod 8 = 0 then ?l + 1 else ?l"
  have n: "?l' div 8 + (if ?l' mod 8 \<noteq> 0 then 1 else 0) = ?l div 8 + 1"
    by (cases "?l mod 8 = 0") (simp_all, presburger)
  have "to_bytes_signed v = int_to_bytes_signed v (?l div 8 + 1)"
    unfolding to_bytes_signed_def Let_def n ..
  also have "\<dots> = Inr (be_bytes (?l div 8 + 1) v)"
    using bit_length_nonneg_less [OF nonneg] nonneg
    by (simp add: int_to_bytes_signed_def)
  finally show ?thesis .
qed

lemma bit_length_0 [simp]: "bit_length 0 = 0"
  by (simp add: bit_length_def bit_length_abs.simps [of 0])

lemma encodeValue_nonneg:
  "0 \<le> v \<Longrightarrow> encodeValue v = Inr (be_bytes (bit_length v div 8 + 1) v)"
  by (simp add: encodeValue_def to_bytes_signed_pos)

lemma byte_of_small_no_sign:
  assumes "0 \<le> k" "k < 128"
  shows "\<not> bit (word_of_int k :: byte) 7"
proof -
  have "k div 128 = 0"
    using assms by simp
  then have "\<not> bit k 7"
    by (simp add: bit_iff_odd)
  then show ?thesis
    by (simp add: bit_word_of_int_iff)
qed

subsection \<open>INTEGER content octets\<close>

lemma int_div_less:
  fixes a b c :: int
  assumes "0 < b" "a < c * b"
  shows "a div b < c"
proof (rule ccontr)
  assume "\<not> a div b < c"
  then have "c * b \<le> a div b * b"
    using assms(1) by (simp add: mult_right_mono)
  moreover have "a div b * b + a mod b = a"
    by simp
  moreover have "0 \<le> a mod b"
    using assms(1) by simp
  ultimately show False
    using assms(2) by linarith
qed

lemma int_from_bytes_signed_be_bytes:
  assumes "0 \<le> v" "2 * v < 256 ^ Suc n"
  shows "int_from_bytes_signed (be_bytes (Suc n) v) = v"
proof -
  have small: "v < 128 * 256 ^ n"
    using assms(2) by simp
  have "v div 256 ^ n < 128"
    using small by (intro int_div_less) simp_all
  moreover have "0 \<le> v div 256 ^ n"
    using assms(1) by (simp add: pos_imp_zdiv_nonneg_iff)
  ultimately have top: "\<not> bit (word_of_int (v div 256 ^ n mod 256) :: byte) 7"
    by (intro byte_of_small_no_sign) simp_all
  have "v < 256 ^ Suc n"
    using assms by linarith
  then have "int_from_bytes (be_bytes (Suc n) v) = v"
    using assms(1) by (rule int_from_bytes_be_bytes_id [rotated])
  then show ?thesis
    unfolding int_from_bytes_signed_def
    by (simp add: be_bytes_front [of n v] top del: be_bytes.simps)
qed

subsection \<open>Length octets\<close>

lemma nat_bit_small: "k < 2 ^ m \<Longrightarrow> m \<le> n \<Longrightarrow> \<not> bit (k::nat) n"
proof -
  assume "k < 2 ^ m" "m \<le> n"
  then have "k < 2 ^ n"
    by (meson le_trans less_le_not_le linorder_le_less_linear power_increasing one_le_numeral)
  then show ?thesis
    by (simp add: bit_iff_odd)
qed

lemma push_bit_or_small:
  fixes l k :: nat
  assumes "k < 2 ^ m"
  shows "push_bit m l OR k = l * 2 ^ m + k"
proof -
  have "push_bit m l AND k = 0"
    by (rule bit_eqI) (use assms in \<open>auto simp: bit_simps dest: nat_bit_small\<close>)
  then have "push_bit m l + k = push_bit m l OR k"
    by (rule disjunctive_add_eq_or)
  then show ?thesis
    by (simp add: push_bit_eq_mult)
qed

lemma unat_byte_less: "unat (x::byte) < 256"
  using unsigned_less [of x, where ?'a = nat] by simp

lemma or_0x80: "k < 128 \<Longrightarrow> (0x80::nat) OR k = 128 + k"
  using push_bit_or_small [of k 7 1] by simp

lemma unat_and_0x7F: "unat ((x::byte) AND 0x7F) = unat x mod 128"
proof -
  have "(0x7F::byte) = mask 7"
    by (simp add: mask_eq_exp_minus_1)
  then have "x AND 0x7F = take_bit 7 x"
    by (simp add: take_bit_eq_mask)
  then show ?thesis
    by (simp add: unsigned_take_bit_eq take_bit_eq_mod unat_mod)
qed

lemma foldl_length_octets:
  "foldl (\<lambda>l x. push_bit 8 l OR unat (x::byte)) 0 (length_octets n) = n"
proof (induction n rule: length_octets.induct)
  case (1 n)
  show ?case
  proof (cases "n = 0")
    case True
    then show ?thesis by (simp add: length_octets.simps [of 0])
  next
    case False
    have u: "unat (word_of_nat (n mod 256) :: byte) = n mod 256"
      by (simp add: unat_of_nat)
    have "push_bit 8 (n div 256) OR (n mod 256) = n div 256 * 2 ^ 8 + n mod 256"
      by (rule push_bit_or_small) simp
    with False 1 show ?thesis
      by (simp add: length_octets.simps [of n] u)
  qed
qed

lemma length_length_octets: "n < 256 ^ k \<Longrightarrow> length (length_octets n) \<le> k"
proof (induction k arbitrary: n)
  case 0
  then show ?case by (simp add: length_octets.simps [of 0])
next
  case (Suc k)
  show ?case
  proof (cases "n = 0")
    case True
    then show ?thesis by (simp add: length_octets.simps [of 0])
  next
    case False
    have "n div 256 < 256 ^ k"
      using Suc.prems by (simp add: less_mult_imp_div_less)
    then have "length (length_octets (n div 256)) \<le> k"
      by (rule Suc.IH)
    with False show ?thesis
      by (simp add: length_octets.simps [of n])
  qed
qed

lemma length_octets_nonempty: "0 < n \<Longrightarrow> length_octets n \<noteq> []"
  by (simp add: length_octets.simps [of n])

lemma decodeLength_encodeLength:
  assumes "encodeLength n = Inr l"
  shows "decodeLength (l @ rest) = Inr (n, rest)"
proof (cases "n < 0x80")
  case True
  then have l: "l = [word_of_nat n]"
    using assms by (simp add: encodeLength_def)
  have u: "unat (word_of_nat n :: byte) = n"
    using True by (simp add: unat_of_nat)
  then have "(word_of_nat n :: byte) < 128"
    using True by (simp add: word_less_nat_alt)
  then show ?thesis
    by (simp add: decodeLength_def l u)
next
  case False
  let ?k = "length (length_octets n)"
  have k: "?k \<le> 126" and l: "l = word_of_nat (0x80 OR ?k) # length_octets n"
    using assms False by (simp_all add: encodeLength_def Let_def split: if_splits)
  have pos: "0 < ?k"
    using False length_octets_nonempty [of n] by simp
  have "unat (word_of_nat (0x80 OR ?k) :: byte) = (0x80 OR ?k) mod 2 ^ LENGTH(8)"
    by (rule unat_of_nat)
  also have "\<dots> = 128 + ?k"
    using k by (simp add: or_0x80)
  finally have first: "unat (word_of_nat (0x80 OR ?k) :: byte) = 128 + ?k" .
  then have gt: "(word_of_nat (0x80 OR ?k) :: byte) > 128"
    using pos by (simp add: word_less_nat_alt)
  then have nlt: "\<not> (word_of_nat (0x80 OR ?k) :: byte) < 128"
    by simp
  have size: "unat ((word_of_nat (0x80 OR ?k) :: byte) AND 0x7F) = ?k"
    using k by (simp add: unat_and_0x7F first)
  show ?thesis
    unfolding decodeLength_def l
    by (simp add: nlt gt size foldl_length_octets del: of_nat_or_eq)
qed


lemma encodeLength_ok: "n < 256 ^ 126 \<Longrightarrow> \<exists>l. encodeLength n = Inr l \<and> length l \<le> 127"
  using length_length_octets [of n 126]
  by (simp add: encodeLength_def Let_def)

subsection \<open>Decoding what the encoder produced\<close>

lemma decodeTag_short:
  "t AND 0x1F \<noteq> 0x1F \<Longrightarrow>
   decodeTag (t # rest) =
     Inr (\<lparr>tagClass = t AND 0xC0, tagFormat = t AND 0x20, tagId = unat (t AND 0x1F)\<rparr>, rest)"
  by (simp add: decodeTag_def)

lemma decode_header_encode_tlv:
  assumes "encode_tlv t content = Inr der" "t AND 0x1F \<noteq> 0x1F"
  shows "decode_header (der @ rest) =
     Inr (\<lparr>tagClass = t AND 0xC0, tagFormat = t AND 0x20, tagId = unat (t AND 0x1F)\<rparr>,
          length content, content @ rest)"
proof -
  obtain l where l: "encodeLength (length content) = Inr l" and der: "der = t # l @ content"
    using assms(1) by (auto simp: encode_tlv_def and_then_eq_Inr)
  have "decodeLength (l @ content @ rest) = Inr (length content, content @ rest)"
    using l by (rule decodeLength_encodeLength)
  then show ?thesis
    by (simp add: decode_header_def der decodeTag_short [OF assms(2)])
qed

lemma decode_integer_encode_integer:
  assumes "encode_integer v = Inr der" "0 \<le> v"
  shows "decode_integer (der @ rest) = Inr (v, rest)"
proof -
  let ?content = "be_bytes (Suc (bit_length v div 8)) v"
  have tlv: "encode_tlv 0x02 ?content = Inr der"
    using assms by (simp add: encode_integer_def encodeValue_nonneg del: be_bytes.simps)
  have hdr: "decode_header (der @ rest) =
     Inr (\<lparr>tagClass = 0x02 AND 0xC0, tagFormat = 0x02 AND 0x20, tagId = unat (0x02 AND 0x1F :: byte)\<rparr>,
          length ?content, ?content @ rest)"
    using tlv by (rule decode_header_encode_tlv) simp
  have ne: "?content \<noteq> []"
    by simp
  have val: "int_from_bytes_signed ?content = v"
    using assms(2) bit_length_nonneg_less [OF assms(2)]
    by (intro int_from_bytes_signed_be_bytes) simp_all
  show ?thesis
    unfolding decode_integer_def hdr
    using ne by (simp add: val del: be_bytes.simps)
qed

lemma encode_integer_nonempty: "encode_integer v = Inr der \<Longrightarrow> der \<noteq> []"
  by (auto simp: encode_integer_def encode_tlv_def and_then_eq_Inr)

lemma decode_components_encode_components:
  assumes "encode_components vs = Inr content" "\<forall>v\<in>set vs. 0 \<le> v" "idx + length vs \<le> n"
  shows "decode_components idx n content = Inr vs"
  using assms
proof (induction vs arbitrary: idx content)
  case Nil
  then show ?case by (simp add: decode_components.simps [of idx n "[]"])
next
  case (Cons v vs)
  obtain x xs where x: "encode_integer v = Inr x" and xs: "encode_components vs = Inr xs"
    and content: "content = x @ xs"
    using Cons.prems(1) by (auto simp: and_then_eq_Inr)
  have "decode_integer (x @ xs) = Inr (v, xs)"
    using x Cons.prems(2) by (intro decode_integer_encode_integer) simp_all
  moreover have "decode_components (idx + 1) n xs = Inr vs"
    using xs Cons.prems(2,3) by (intro Cons.IH) simp_all
  moreover have "x @ xs \<noteq> []"
    using encode_integer_nonempty [OF x] by simp
  moreover have "\<not> n \<le> idx"
    using Cons.prems(3) by simp
  ultimately show ?case
    unfolding content by (simp add: decode_components.simps [of idx n "x @ xs"])
qed

lemma decode_sequence_encode_sequence:
  assumes "encode_sequence vs = Inr der" "\<forall>v\<in>set vs. 0 \<le> v"
  shows "decode_sequence (length vs) (der @ rest) = Inr (vs, rest)"
proof -
  obtain content where content: "encode_components vs = Inr content"
    and tlv: "encode_tlv 0x30 content = Inr der"
    using assms(1) by (auto simp: encode_sequence_def and_then_eq_Inr)
  have hdr: "decode_header (der @ rest) =
     Inr (\<lparr>tagClass = 0x30 AND 0xC0, tagFormat = 0x30 AND 0x20, tagId = unat (0x30 AND 0x1F :: byte)\<rparr>,
          length content, content @ rest)"
    using tlv by (rule decode_header_encode_tlv) simp
  have "decode_components 0 (length vs) content = Inr vs"
    using content assms(2) by (rule decode_components_encode_components) simp
  then show ?thesis
    unfolding decode_sequence_def hdr by simp
qed

subsection \<open>Octets after the decoded value\<close>

lemma decodeLongTag_append:
  "decodeLongTag tid d = Inr (x, rest) \<Longrightarrow> decodeLongTag tid (d @ t) = Inr (x, rest @ t)"
proof (induction d arbitrary: tid)
  case Nil
  then show ?case by simp
next
  case (Cons a d)
  then show ?case
    by (cases "a AND 0x80 = 0") (simp_all add: Let_def)
qed

lemma decodeTag_append:
  assumes "decodeTag d = Inr (tg, rest)"
  shows "decodeTag (d @ t) = Inr (tg, rest @ t)"
proof (cases d)
  case Nil
  with assms show ?thesis by (simp add: decodeTag_def)
next
  case (Cons a d')
  show ?thesis
  proof (cases "a AND 0x1F = 0x1F")
    case True
    then obtain tid where long: "decodeLongTag 0 d' = Inr (tid, rest)"
      and tg: "tg = \<lparr>tagClass = a AND 0xC0, tagFormat = a AND 0x20, tagId = tid\<rparr>"
      using assms Cons by (auto simp: decodeTag_def and_then_eq_Inr)
    have "decodeLongTag 0 (d' @ t) = Inr (tid, rest @ t)"
      using long by (rule decodeLongTag_append)
    with True show ?thesis
      by (simp add: decodeTag_def Cons tg)
  next
    case False
    with assms Cons show ?thesis
      by (auto simp: decodeTag_def)
  qed
qed

lemma decodeLength_append:
  assumes "decodeLength d = Inr (l, rest)"
  shows "decodeLength (d @ t) = Inr (l, rest @ t)"
proof (cases d)
  case Nil
  with assms show ?thesis by (simp add: decodeLength_def)
next
  case (Cons a d')
  show ?thesis
  proof (cases "a < 128")
    case True
    with assms Cons show ?thesis
      by (auto simp: decodeLength_def)
  next
    case False
    let ?size = "unat (a AND 0x7F)"
    have gt: "a > 128" and enough: "?size \<le> length d'"
      and l: "l = foldl (\<lambda>l x. push_bit 8 l OR unat x) 0 (take ?size d')"
      and rest: "rest = drop ?size d'"
      using assms Cons False by (auto simp: decodeLength_def Let_def split: if_splits)
    show ?thesis
      using False gt enough by (simp add: decodeLength_def Cons Let_def l rest)
  qed
qed

lemma decode_header_append:
  assumes "decode_header d = Inr (tg, l, rest)"
  shows "decode_header (d @ t) = Inr (tg, l, rest @ t)"
proof -
  obtain r1 where tag: "decodeTag d = Inr (tg, r1)"
    and len: "decodeLength r1 = Inr (l, rest)" and enough: "\<not> length rest < l"
    using assms
    by (auto simp: decode_header_def and_then_eq_Inr split: if_splits)
  have "decodeTag (d @ t) = Inr (tg, r1 @ t)"
    using tag by (rule decodeTag_append)
  moreover have "decodeLength (r1 @ t) = Inr (l, rest @ t)"
    using len by (rule decodeLength_append)
  ultimately show ?thesis
    using enough by (simp add: decode_header_def)
qed

lemma decode_header_enough:
  "decode_header d = Inr (tg, l, rest) \<Longrightarrow> l \<le> length rest"
  by (auto simp: decode_header_def and_then_eq_Inr split: if_splits)

lemma decode_integer_append:
  assumes "decode_integer d = Inr (v, rest)"
  shows "decode_integer (d @ t) = Inr (v, rest @ t)"
proof -
  obtain tg l r1 where hdr: "decode_header d = Inr (tg, l, r1)"
    and ok: "tagClass tg = 0" "tagId tg = 2" "tagFormat tg = 0"
    and v: "v = (if take l r1 = [] then 0 else int_from_bytes_signed (take l r1))"
    and rest: "rest = drop l r1"
    using assms
    by (auto simp: decode_integer_def and_then_eq_Inr Let_def split: if_splits)
  have hdr': "decode_header (d @ t) = Inr (tg, l, r1 @ t)"
    using hdr by (rule decode_header_append)
  have tk: "take l (r1 @ t) = take l r1" and dr: "drop l (r1 @ t) = drop l r1 @ t"
    using decode_header_enough [OF hdr] by simp_all
  show ?thesis
    unfolding decode_integer_def hdr' and_then_Inr prod.case Let_def tk dr v rest
    using ok by simp
qed

lemma decode_sequence_append:
  assumes "decode_sequence n d = Inr (cs, rest)"
  shows "decode_sequence n (d @ t) = Inr (cs, rest @ t)"
proof -
  obtain tg l r1 where hdr: "decode_header d = Inr (tg, l, r1)"
    and ok: "tagClass tg = 0" "tagId tg = 16" "tagFormat tg = 0x20"
    and cs: "decode_components 0 n (take l r1) = Inr cs" "length cs = n"
    and rest: "rest = drop l r1"
    using assms
    by (auto simp: decode_sequence_def and_then_eq_Inr Let_def split: if_splits)
  have hdr': "decode_header (d @ t) = Inr (tg, l, r1 @ t)"
    using hdr by (rule decode_header_append)
  have tk: "take l (r1 @ t) = take l r1" and dr: "drop l (r1 @ t) = drop l r1 @ t"
    using decode_header_enough [OF hdr] by simp_all
  show ?thesis
    unfolding decode_sequence_def hdr' and_then_Inr prod.case Let_def tk dr rest
    using ok cs by simp
qed

subsection \<open>When the encoder succeeds\<close>

lemma encode_tlv_ok:
  assumes "length content < 256 ^ 126"
  shows "\<exists>der. encode_tlv t content = Inr der \<and> length der \<le> length content + 128"
proof -
  obtain l where "encodeLength (length content) = Inr l" "length l \<le> 127"
    using encodeLength_ok [OF assms] by blast
  then show ?thesis
    by (simp add: encode_tlv_def)
qed

lemma bit_length_bound:
  assumes "0 \<le> v" "v < 256 ^ N"
  shows "bit_length v div 8 + 1 \<le> N + 1"
proof -
  have "v < 2 ^ (8 * N)"
    using assms(2) by (simp only: pow256)
  then have "bit_length_abs v \<le> 8 * N"
    using assms(1) by (rule bit_length_abs_le [rotated])
  then show ?thesis
    using assms(1) by (simp add: bit_length_def)
qed

lemma encode_integer_ok:
  assumes "0 \<le> v" "v < 256 ^ N" "N + 1 < 256 ^ 126"
  shows "\<exists>der. encode_integer v = Inr der \<and> length der \<le> N + 129"
proof -
  let ?content = "be_bytes (bit_length v div 8 + 1) v"
  have len: "length ?content \<le> N + 1"
    using bit_length_bound [OF assms(1,2)] by (simp del: be_bytes.simps)
  then have "length ?content < 256 ^ 126"
    using assms(3) by linarith
  then obtain der where "encode_tlv 0x02 ?content = Inr der"
    and "length der \<le> length ?content + 128"
    using encode_tlv_ok by blast
  then show ?thesis
    using len assms(1) by (simp add: encode_integer_def encodeValue_nonneg del: be_bytes.simps)
qed

lemma encode_components_ok:
  assumes "\<forall>v\<in>set vs. 0 \<le> v \<and> v < 256 ^ N" "N + 1 < 256 ^ 126"
  shows "\<exists>c. encode_components vs = Inr c \<and> length c \<le> length vs * (N + 129)"
  using assms(1)
proof (induction vs)
  case Nil
  show ?case by simp
next
  case (Cons v vs)
  obtain x where x: "encode_integer v = Inr x" "length x \<le> N + 129"
    using encode_integer_ok [of v N] Cons.prems assms(2) by auto
  obtain xs where xs: "encode_components vs = Inr xs" "length xs \<le> length vs * (N + 129)"
    using Cons.IH Cons.prems by auto
  show ?case
    using x xs by simp
qed

lemma encode_sequence_ok:
  assumes "\<forall>v\<in>set vs. 0 \<le> v \<and> v < 256 ^ N" "length vs * (N + 129) < 256 ^ 126"
    and "N + 1 < 256 ^ 126"
  shows "\<exists>der. encode_sequence vs = Inr der"
proof -
  obtain c where c: "encode_components vs = Inr c" "length c \<le> length vs * (N + 129)"
    using encode_components_ok [OF assms(1,3)] by blast
  then have "length c < 256 ^ 126"
    using assms(2) by linarith
  then obtain der where "encode_tlv 0x30 c = Inr der"
    using encode_tlv_ok by blast
  then show ?thesis
    by (simp add: encode_sequence_def c)
qed

subsection \<open>Errors of the encoder\<close>

lemma encode_tlv_error: "encode_tlv t content = Inl e \<Longrightarrow> e = ENCODE_ERROR"
  by (auto simp: encode_tlv_def and_then_def encodeLength_def Let_def
           split: sum.splits if_splits)

lemma encode_integer_error: "0 \<le> v \<Longrightarrow> encode_integer v = Inl e \<Longrightarrow> e = ENCODE_ERROR"
  by (simp add: encode_integer_def encodeValue_nonneg encode_tlv_error del: be_bytes.simps)

lemma encode_components_error:
  "\<forall>v\<in>set vs. 0 \<le> v \<Longrightarrow> encode_components vs = Inl e \<Longrightarrow> e = ENCODE_ERROR"
proof (induction vs arbitrary: e)
  case Nil
  then show ?case by simp
next
  case (Cons v vs)
  show ?case
  proof (cases "encode_integer v")
    case (Inl e')
    with Cons.prems show ?thesis
      using encode_integer_error [of v e'] by simp
  next
    case (Inr x)
    with Cons show ?thesis
      by (cases "encode_components vs") simp_all
  qed
qed

lemma encode_sequence_error:
  "\<forall>v\<in>set vs. 0 \<le> v \<Longrightarrow> encode_sequence vs = Inl e \<Longrightarrow> e = ENCODE_ERROR"
  by (cases "encode_components vs")
     (auto simp: encode_sequence_def dest: encode_components_error encode_tlv_error)

lemma getitem_Some [simp]: "obj k = Some v \<Longrightarrow> getitem obj k = Inr v"
  by (simp add: getitem_def)

lemma getitem_None [simp]: "obj k = None \<Longrightarrow> getitem obj k = Inl MISSING_ATTRIBUTE"
  by (simp add: getitem_def)

subsection \<open>The three schemas\<close>

lemma py_size_small:
  assumes "N \<le> PY_SSIZE_T_MAX"
  shows "N + 1 < 256 ^ 126" and "3 * (N + 129) < 256 ^ 126"
proof -
  have N: "N < 2 ^ 63"
    using assms by (simp add: PY_SSIZE_T_MAX_def)
  then have "3 * (N + 129) < 3 * 2 ^ 63 + 400"
    by simp
  also have "\<dots> < (256::nat) ^ 126"
    by simp
  finally show "3 * (N + 129) < 256 ^ 126" .
  then show "N + 1 < 256 ^ 126"
    by simp
qed

lemma int_from_bytes_less_mono:
  assumes "length b \<le> N"
  shows "int_from_bytes b < 256 ^ N"
proof -
  have "int_from_bytes b < 256 ^ length b"
    by (rule int_from_bytes_less)
  also have "\<dots> \<le> (256::int) ^ N"
    using assms by (intro power_increasing) simp_all
  finally show ?thesis .
qed

lemma encode_Dss_Sig_Value_ok:
  assumes "0 \<le> a" "a < 256 ^ N" "0 \<le> b" "b < 256 ^ N" "N \<le> PY_SSIZE_T_MAX"
  shows "\<exists>der. encode_Dss_Sig_Value \<lparr>r = a, s = b\<rparr> = Inr der"
proof -
  have "length [a, b] * (N + 129) < 256 ^ 126"
    using py_size_small(2) [OF assms(5)] by simp
  then show ?thesis
    unfolding encode_Dss_Sig_Value_def
    using assms(1-4) py_size_small(1) [OF assms(5)]
    by (intro encode_sequence_ok [of _ N]) simp_all
qed

lemma encode_Dss_Parms_ok:
  assumes "0 \<le> a" "a < 256 ^ N" "0 \<le> b" "b < 256 ^ N" "0 \<le> c" "c < 256 ^ N"
    and "N \<le> PY_SSIZE_T_MAX"
  shows "\<exists>der. encode_Dss_Parms \<lparr>p = a, q = b, g = c\<rparr> = Inr der"
proof -
  have "length [a, b, c] * (N + 129) < 256 ^ 126"
    using py_size_small(2) [OF assms(7)] by simp
  then show ?thesis
    unfolding encode_Dss_Parms_def
    using assms(1-6) py_size_small(1) [OF assms(7)]
    by (intro encode_sequence_ok [of _ N]) simp_all
qed

lemma encode_DSAPublicKey_ok:
  assumes "0 \<le> y" "y < 256 ^ N" "N \<le> PY_SSIZE_T_MAX"
  shows "\<exists>der. encode_DSAPublicKey y = Inr der"
  unfolding encode_DSAPublicKey_def
  using encode_integer_ok [OF assms(1,2) py_size_small(1) [OF assms(3)]] by blast

lemma decode_Dss_Sig_Value_encode:
  assumes "encode_Dss_Sig_Value \<lparr>r = a, s = b\<rparr> = Inr der" "0 \<le> a" "0 \<le> b"
  shows "decode_Dss_Sig_Value (der @ rest) = Inr (\<lparr>r = a, s = b\<rparr>, rest)"
proof -
  have "decode_sequence 2 (der @ rest) = Inr ([a, b], rest)"
    using assms decode_sequence_encode_sequence [of "[a, b]" der rest]
    by (simp add: encode_Dss_Sig_Value_def numeral_2_eq_2)
  then show ?thesis
    by (simp add: decode_Dss_Sig_Value_def)
qed

lemma decode_Dss_Parms_encode:
  assumes "encode_Dss_Parms \<lparr>p = a, q = b, g = c\<rparr> = Inr der" "0 \<le> a" "0 \<le> b" "0 \<le> c"
  shows "decode_Dss_Parms (der @ rest) = Inr (\<lparr>p = a, q = b, g = c\<rparr>, rest)"
proof -
  have "decode_sequence 3 (der @ rest) = Inr ([a, b, c], rest)"
    using assms decode_sequence_encode_sequence [of "[a, b, c]" der rest]
    by (simp add: encode_Dss_Parms_def numeral_3_eq_3)
  then show ?thesis
    by (simp add: decode_Dss_Parms_def)
qed

lemma decode_DSAPublicKey_encode:
  assumes "encode_DSAPublicKey y = Inr der" "0 \<le> y"
  shows "decode_DSAPublicKey (der @ rest) = Inr (y, rest)"
  using assms unfolding encode_DSAPublicKey_def decode_DSAPublicKey_def
  by (rule decode_integer_encode_integer)

lemma int_to_bytes_int_from_bytes:
  "length b = n \<Longrightarrow> int_to_bytes (int_from_bytes b) n = Inr b"
  using int_from_bytes_less [of b] int_from_bytes_nonneg [of b] be_bytes_int_from_bytes [of b]
  by (auto simp: int_to_bytes_def)

subsection \<open>Fixed-width conversion\<close>

lemma be_bytes_pad:
  assumes "0 \<le> v" "v < 256 ^ n"
  shows "be_bytes (m + n) v = replicate m 0 @ be_bytes n v"
proof (induction m)
  case 0
  show ?case by simp
next
  case (Suc m)
  have "(256::int) ^ n \<le> 256 ^ (m + n)"
    by (intro power_increasing) simp_all
  then have "v < 256 ^ (m + n)"
    using assms(2) by linarith
  then have "v div 256 ^ (m + n) = 0"
    using assms(1) by simp
  then have "be_bytes (Suc (m + n)) v = 0 # be_bytes (m + n) v"
    by (simp add: be_bytes_front [of "m + n" v] del: be_bytes.simps)
  then show ?case
    by (simp add: Suc.IH del: be_bytes.simps)
qed

lemma decode_dsa_signature_unfold:
  assumes "decode_Dss_Sig_Value der = Inr (asn1, rest)"
  shows "decode_dsa_signature der =
     and_then (int_to_bytes (r asn1) 20) (\<lambda>rb.
     and_then (int_to_bytes (s asn1) 20) (\<lambda>sb. Inr (rb @ sb)))"
  by (simp add: decode_dsa_signature_def assms)

lemma int_to_bytes_fits:
  assumes "0 \<le> v" "v < 2 ^ 160"
  shows "int_to_bytes v 20 = Inr (be_bytes 20 v)"
    and "int_from_bytes (be_bytes 20 v) = v"
proof -
  have "(256::int) ^ 20 = 2 ^ 160"
    by simp
  then have lt: "v < 256 ^ 20"
    using assms(2) by simp
  then show "int_to_bytes v 20 = Inr (be_bytes 20 v)"
    using assms(1) by (simp add: int_to_bytes_def)
  show "int_from_bytes (be_bytes 20 v) = v"
    using assms(1) lt by (rule int_from_bytes_be_bytes_id)
qed

lemma int_to_bytes_overflow: "v < 0 \<or> 2 ^ 160 \<le> v \<Longrightarrow> int_to_bytes v 20 = Inl OVERFLOW"
proof -
  assume "v < 0 \<or> 2 ^ 160 \<le> v"
  moreover have "(256::int) ^ 20 = 2 ^ 160"
    by simp
  ultimately show ?thesis
    by (auto simp: int_to_bytes_def)
qed

lemma int_to_bytes_cases:
  "int_to_bytes v n = Inl OVERFLOW \<or> int_to_bytes v n = Inr (be_bytes n v)"
  by (simp add: int_to_bytes_def)

lemma int_to_bytes_Inr:
  "int_to_bytes v n = Inr b \<Longrightarrow> 0 \<le> v \<and> v < 256 ^ n \<and> b = be_bytes n v"
  by (auto simp: int_to_bytes_def split: if_splits)

subsection \<open>Trailing octets and the schemas\<close>

lemma decode_Dss_Parms_append:
  assumes "decode_Dss_Parms d = Inr (params, rest)"
  shows "decode_Dss_Parms (d @ t) = Inr (params, rest @ t)"
proof -
  obtain cs r1 where cs: "decode_sequence 3 d = Inr (cs, r1)"
    and params: "(case cs of [a, b, c] \<Rightarrow> Inr (\<lparr>p = a, q = b, g = c\<rparr>, r1)
                  | _ \<Rightarrow> Inl DECODE_ERROR) = Inr (params, rest)"
    using assms by (auto simp: decode_Dss_Parms_def and_then_eq_Inr)
  obtain a b c where abc: "cs = [a, b, c]" "params = \<lparr>p = a, q = b, g = c\<rparr>" "r1 = rest"
    using params by (auto split: list.splits)
  have "decode_sequence 3 (d @ t) = Inr (cs, rest @ t)"
    using cs unfolding abc(3) by (rule decode_sequence_append)
  then show ?thesis
    by (simp add: decode_Dss_Parms_def abc)
qed

lemma decode_Dss_Sig_Value_append:
  assumes "decode_Dss_Sig_Value d = Inr (asn1, rest)"
  shows "decode_Dss_Sig_Value (d @ t) = Inr (asn1, rest @ t)"
proof -
  obtain cs r1 where cs: "decode_sequence 2 d = Inr (cs, r1)"
    and asn1: "(case cs of [a, b] \<Rightarrow> Inr (\<lparr>r = a, s = b\<rparr>, r1)
                | _ \<Rightarrow> Inl DECODE_ERROR) = Inr (asn1, rest)"
    using assms by (auto simp: decode_Dss_Sig_Value_def and_then_eq_Inr)
  obtain a b where ab: "cs = [a, b]" "asn1 = \<lparr>r = a, s = b\<rparr>" "r1 = rest"
    using asn1 by (auto split: list.splits)
  have "decode_sequence 2 (d @ t) = Inr (cs, rest @ t)"
    using cs unfolding ab(3) by (rule decode_sequence_append)
  then show ?thesis
    by (simp add: decode_Dss_Sig_Value_def ab)
qed

lemma decode_DSAPublicKey_append:
  "decode_DSAPublicKey d = Inr (y, rest) \<Longrightarrow> decode_DSAPublicKey (d @ t) = Inr (y, rest @ t)"
  unfolding decode_DSAPublicKey_def by (rule decode_integer_append)

lemma decode_dsa_domain_parameters_Inr:
  "decode_dsa_domain_parameters d = Inr m \<Longrightarrow> \<exists>params rest. decode_Dss_Parms d = Inr (params, rest)"
  by (auto simp: decode_dsa_domain_parameters_def and_then_eq_Inr)

lemma decode_dsa_public_key_Inr:
  "decode_dsa_public_key d = Inr b \<Longrightarrow> \<exists>y rest. decode_DSAPublicKey d = Inr (y, rest)"
  by (auto simp: decode_dsa_public_key_def and_then_eq_Inr)

lemma decode_dsa_signature_Inr:
  "decode_dsa_signature d = Inr b \<Longrightarrow> \<exists>asn1 rest. decode_Dss_Sig_Value d = Inr (asn1, rest)"
  by (auto simp: decode_dsa_signature_def and_then_eq_Inr)

subsection \<open>The minimal encoding\<close>

lemma biginteger_value:
  assumes "biginteger v = Inr e"
  shows "0 \<le> v \<and> int_from_bytes e = v"
proof (cases "v \<le> 0")
  case True
  with assms show ?thesis
    by (auto simp: biginteger_def int_from_bytes_Cons split: if_splits)
next
  case False
  let ?n = "(bit_length v + 7) div 8"
  have e: "e = be_bytes ?n v"
    using assms False by (simp add: biginteger_def split: if_splits)
  have "v < 2 ^ bit_length v"
    using False bit_length_abs_upper [of v] by (simp add: bit_length_def)
  also have "\<dots> \<le> (2::int) ^ (8 * ?n)"
    by (rule power_increasing) (presburger, simp)
  finally have "v < 256 ^ ?n"
    by (simp only: pow256)
  then show ?thesis
    using False by (simp add: e int_from_bytes_be_bytes_id)
qed

lemma biginteger_nonneg: "0 \<le> v \<Longrightarrow> \<exists>e. biginteger v = Inr e"
  by (simp add: biginteger_def)

lemma biginteger_idem:
  "biginteger v = Inr e \<Longrightarrow> biginteger (int_from_bytes e) = Inr e"
  using biginteger_value [of v e] by simp

subsection \<open>Domain parameters\<close>

lemma domain_parameters_normalized:
  assumes "obj BASE = Some gb" "obj PRIME = Some pb" "obj SUBPRIME = Some qb"
    and "length gb \<le> PY_SSIZE_T_MAX" "length pb \<le> PY_SSIZE_T_MAX" "length qb \<le> PY_SSIZE_T_MAX"
  shows "and_then (encode_dsa_domain_parameters obj) decode_dsa_domain_parameters =
     and_then (biginteger (int_from_bytes gb)) (\<lambda>base.
     and_then (biginteger (int_from_bytes pb)) (\<lambda>prime.
     and_then (biginteger (int_from_bytes qb)) (\<lambda>subprime.
       Inr [BASE \<mapsto> base, PRIME \<mapsto> prime, SUBPRIME \<mapsto> subprime])))"
proof -
  let ?g = "int_from_bytes gb" and ?p = "int_from_bytes pb" and ?q = "int_from_bytes qb"
  have enc: "encode_dsa_domain_parameters obj = encode_Dss_Parms \<lparr>p = ?p, q = ?q, g = ?g\<rparr>"
    by (simp add: encode_dsa_domain_parameters_def assms(1-3))
  obtain der where der: "encode_Dss_Parms \<lparr>p = ?p, q = ?q, g = ?g\<rparr> = Inr der"
    using encode_Dss_Parms_ok [of ?p PY_SSIZE_T_MAX ?q ?g] assms(4-6)
    by (auto simp: int_from_bytes_nonneg int_from_bytes_less_mono)
  have "decode_Dss_Parms (der @ []) = Inr (\<lparr>p = ?p, q = ?q, g = ?g\<rparr>, [])"
    using der by (rule decode_Dss_Parms_encode) (simp_all add: int_from_bytes_nonneg)
  then show ?thesis
    by (simp add: enc der decode_dsa_domain_parameters_def)
qed

section \<open>The properties of the specification\<close>

text \<open>
  C1: for every 40-octet signature \<open>sig\<close>, decoding the encoding of \<open>sig\<close> gives \<open>sig\<close>
  back; both components are below \<open>2 ^ 160\<close> because each half has 20 octets.
\<close>

theorem signature_round_trip:
  assumes "length signature = 40"
  shows "and_then (encode_dsa_signature signature) decode_dsa_signature = Inr signature \<and>
         int_from_bytes (take 20 signature) < 2 ^ 160 \<and>
         int_from_bytes (drop 20 signature) < 2 ^ 160"
proof -
  let ?rb = "take 20 signature" and ?sb = "drop 20 signature"
  let ?a = "int_from_bytes ?rb" and ?b = "int_from_bytes ?sb"
  have len: "length ?rb = 20" "length ?sb = 20"
    using assms by simp_all
  have a: "0 \<le> ?a" "?a < 256 ^ 20" and b: "0 \<le> ?b" "?b < 256 ^ 20"
    using int_from_bytes_less [of ?rb] int_from_bytes_less [of ?sb] len
    by (simp_all add: int_from_bytes_nonneg)
  have enc: "encode_dsa_signature signature = encode_Dss_Sig_Value \<lparr>r = ?a, s = ?b\<rparr>"
    using assms by (simp add: encode_dsa_signature_def)
  obtain der where der: "encode_Dss_Sig_Value \<lparr>r = ?a, s = ?b\<rparr> = Inr der"
    using encode_Dss_Sig_Value_ok [OF a b] by (auto simp: PY_SSIZE_T_MAX_def)
  have "decode_Dss_Sig_Value (der @ []) = Inr (\<lparr>r = ?a, s = ?b\<rparr>, [])"
    using der a(1) b(1) by (rule decode_Dss_Sig_Value_encode)
  moreover have "int_to_bytes ?a 20 = Inr ?rb" "int_to_bytes ?b 20 = Inr ?sb"
    using len by (simp_all only: int_to_bytes_int_from_bytes)
  ultimately have "decode_dsa_signature der = Inr (?rb @ ?sb)"
    by (simp add: decode_dsa_signature_def)
  then have "and_then (encode_dsa_signature signature) decode_dsa_signature = Inr signature"
    by (simp add: enc der)
  moreover have "(256::int) ^ 20 = 2 ^ 160"
    by simp
  ultimately show ?thesis
    using a(2) b(2) by simp
qed

theorem signature_round_trip_witness:
  "length (replicate 20 (0xFF::byte) @ replicate 20 1) = 40 \<and>
   and_then (encode_dsa_signature (replicate 20 0xFF @ replicate 20 1)) decode_dsa_signature
     = Inr (replicate 20 0xFF @ replicate 20 1) \<and>
   int_from_bytes (take 20 (replicate 20 (0xFF::byte) @ replicate 20 1)) < 2 ^ 160"
  using signature_round_trip [of "replicate 20 0xFF @ replicate 20 1"] by simp

text \<open>
  C2 (as stated, refuted): \<open>encode_dsa_signature\<close> does not fail on a 39-octet input; it
  returns an encoding.
\<close>

theorem odd_signature_counterexample:
  "odd (length (replicate 39 (0::byte))) \<and>
   encode_dsa_signature (replicate 39 0) = Inr [0x30, 0x06, 0x02, 0x01, 0x00, 0x02, 0x01, 0x00] \<and>
   encode_dsa_signature (replicate 39 0) \<noteq> Inl INVALID_INPUT"
  by code_simp

text \<open>
  C2 (amended): for every input of odd length \<open>n\<close>, \<open>encode_dsa_signature\<close> does not fail.
  It splits the input at \<open>n div 2\<close>, so the second part is one octet longer than the
  first, and returns the DER encoding of the Dss-Sig-Value whose \<open>r\<close> and \<open>s\<close> are the
  big-endian values of the two parts.
\<close>

theorem odd_signature_encoded:
  assumes "odd (length signature)" "length signature \<le> PY_SSIZE_T_MAX"
  shows "\<exists>der. encode_dsa_signature signature = Inr der \<and>
           decode_Dss_Sig_Value der =
             Inr (\<lparr>r = int_from_bytes (take (length signature div 2) signature),
                   s = int_from_bytes (drop (length signature div 2) signature)\<rparr>, []) \<and>
           length (drop (length signature div 2) signature) =
             Suc (length (take (length signature div 2) signature))"
proof -
  let ?part = "length signature div 2"
  let ?a = "int_from_bytes (take ?part signature)"
  let ?b = "int_from_bytes (drop ?part signature)"
  have a: "0 \<le> ?a" "?a < 256 ^ length signature"
    by (simp_all add: int_from_bytes_nonneg int_from_bytes_less_mono)
  have b: "0 \<le> ?b" "?b < 256 ^ length signature"
    by (simp_all add: int_from_bytes_nonneg int_from_bytes_less_mono)
  obtain der where der: "encode_Dss_Sig_Value \<lparr>r = ?a, s = ?b\<rparr> = Inr der"
    using encode_Dss_Sig_Value_ok [OF a b assms(2)] by blast
  have "decode_Dss_Sig_Value (der @ []) = Inr (\<lparr>r = ?a, s = ?b\<rparr>, [])"
    using der a(1) b(1) by (rule decode_Dss_Sig_Value_encode)
  moreover have "length (drop ?part signature) = Suc (length (take ?part signature))"
    using assms(1) by (auto elim!: oddE)
  ultimately show ?thesis
    using der by (simp add: encode_dsa_signature_def)
qed

theorem odd_signature_encoded_witness:
  "odd (length [1, 2, 3 :: byte]) \<and> length [1, 2, 3 :: byte] \<le> PY_SSIZE_T_MAX \<and>
   (\<exists>der. encode_dsa_signature [1, 2, 3] = Inr der \<and>
      decode_Dss_Sig_Value der = Inr (\<lparr>r = 1, s = 515\<rparr>, []))"
  using odd_signature_encoded [of "[1, 2, 3]"]
  by (simp add: PY_SSIZE_T_MAX_def int_from_bytes_Cons)

text \<open>
  C3: when the DER input decodes as a Dss-Sig-Value, \<open>decode_dsa_signature\<close> fails with
  OVERFLOW if \<open>r\<close> or \<open>s\<close> is \<open>2 ^ 160\<close> or more, and nothing is truncated; if both
  components are non-negative and below \<open>2 ^ 160\<close> it returns exactly 40 octets, the
  20-octet big-endian form of \<open>r\<close> followed by that of \<open>s\<close>, each padded with zero
  octets on the left.
\<close>

theorem decode_dsa_signature_width:
  assumes "decode_Dss_Sig_Value der = Inr (asn1, rest)"
  shows "(2 ^ 160 \<le> r asn1 \<or> 2 ^ 160 \<le> s asn1 \<longrightarrow> decode_dsa_signature der = Inl OVERFLOW) \<and>
         (0 \<le> r asn1 \<and> r asn1 < 2 ^ 160 \<and> 0 \<le> s asn1 \<and> s asn1 < 2 ^ 160 \<longrightarrow>
            (\<exists>out. decode_dsa_signature der = Inr out \<and> length out = 40 \<and>
               int_from_bytes (take 20 out) = r asn1 \<and>
               int_from_bytes (drop 20 out) = s asn1 \<and>
               (\<forall>n\<le>20. r asn1 < 256 ^ n \<longrightarrow>
                  take 20 out = replicate (20 - n) 0 @ be_bytes n (r asn1)) \<and>
               (\<forall>n\<le>20. s asn1 < 256 ^ n \<longrightarrow>
                  drop 20 out = replicate (20 - n) 0 @ be_bytes n (s asn1))))"
proof (intro conjI impI)
  assume big: "2 ^ 160 \<le> r asn1 \<or> 2 ^ 160 \<le> s asn1"
  show "decode_dsa_signature der = Inl OVERFLOW"
  proof (cases "2 ^ 160 \<le> r asn1")
    case True
    then show ?thesis
      by (simp add: decode_dsa_signature_unfold [OF assms] int_to_bytes_overflow)
  next
    case False
    with big have "int_to_bytes (s asn1) 20 = Inl OVERFLOW"
      by (simp add: int_to_bytes_overflow)
    then show ?thesis
      using int_to_bytes_cases [of "r asn1" 20]
      by (auto simp: decode_dsa_signature_unfold [OF assms])
  qed
next
  assume fits: "0 \<le> r asn1 \<and> r asn1 < 2 ^ 160 \<and> 0 \<le> s asn1 \<and> s asn1 < 2 ^ 160"
  let ?out = "be_bytes 20 (r asn1) @ be_bytes 20 (s asn1)"
  have "decode_dsa_signature der = Inr ?out"
    using fits by (simp add: decode_dsa_signature_unfold [OF assms] int_to_bytes_fits(1))
  moreover have "length ?out = 40"
    by (simp del: be_bytes.simps)
  moreover have "take 20 ?out = be_bytes 20 (r asn1)" "drop 20 ?out = be_bytes 20 (s asn1)"
    by (simp_all del: be_bytes.simps)
  moreover have "be_bytes 20 (r asn1) = replicate (20 - n) 0 @ be_bytes n (r asn1)"
    if "n \<le> 20" "r asn1 < 256 ^ n" for n
    using that fits be_bytes_pad [of "r asn1" n "20 - n"] by (simp del: be_bytes.simps)
  moreover have "be_bytes 20 (s asn1) = replicate (20 - n) 0 @ be_bytes n (s asn1)"
    if "n \<le> 20" "s asn1 < 256 ^ n" for n
    using that fits be_bytes_pad [of "s asn1" n "20 - n"] by (simp del: be_bytes.simps)
  ultimately show "\<exists>out. decode_dsa_signature der = Inr out \<and> length out = 40 \<and>
               int_from_bytes (take 20 out) = r asn1 \<and>
               int_from_bytes (drop 20 out) = s asn1 \<and>
               (\<forall>n\<le>20. r asn1 < 256 ^ n \<longrightarrow>
                  take 20 out = replicate (20 - n) 0 @ be_bytes n (r asn1)) \<and>
               (\<forall>n\<le>20. s asn1 < 256 ^ n \<longrightarrow>
                  drop 20 out = replicate (20 - n) 0 @ be_bytes n (s asn1))"
    using fits by (intro exI [of _ ?out]) (simp add: int_to_bytes_fits(2) del: be_bytes.simps)
qed

theorem decode_dsa_signature_width_witness:
  "decode_Dss_Sig_Value ([0x30, 0x1A, 0x02, 0x15, 0x01] @ replicate 20 0x00 @ [0x02, 0x01, 0x01])
     = Inr (\<lparr>r = 2 ^ 160, s = 1\<rparr>, []) \<and>
   decode_dsa_signature ([0x30, 0x1A, 0x02, 0x15, 0x01] @ replicate 20 0x00 @ [0x02, 0x01, 0x01])
     = Inl OVERFLOW \<and>
   decode_Dss_Sig_Value [0x30, 0x06, 0x02, 0x01, 0x05, 0x02, 0x01, 0x07]
     = Inr (\<lparr>r = 5, s = 7\<rparr>, []) \<and>
   (\<exists>out. decode_dsa_signature [0x30, 0x06, 0x02, 0x01, 0x05, 0x02, 0x01, 0x07] = Inr out \<and>
      length out = 40 \<and> int_from_bytes (take 20 out) = 5 \<and> int_from_bytes (drop 20 out) = 7)"
proof -
  have big: "decode_Dss_Sig_Value
      ([0x30, 0x1A, 0x02, 0x15, 0x01] @ replicate 20 0x00 @ [0x02, 0x01, 0x01])
     = Inr (\<lparr>r = 2 ^ 160, s = 1\<rparr>, [])"
    by code_simp
  have small: "decode_Dss_Sig_Value [0x30, 0x06, 0x02, 0x01, 0x05, 0x02, 0x01, 0x07]
     = Inr (\<lparr>r = 5, s = 7\<rparr>, [])"
    by code_simp
  have "decode_dsa_signature
      ([0x30, 0x1A, 0x02, 0x15, 0x01] @ replicate 20 0x00 @ [0x02, 0x01, 0x01]) = Inl OVERFLOW"
    using decode_dsa_signature_width [OF big] by simp
  moreover obtain out
    where "decode_dsa_signature [0x30, 0x06, 0x02, 0x01, 0x05, 0x02, 0x01, 0x07] = Inr out"
      and "length out = 40" "int_from_bytes (take 20 out) = 5" "int_from_bytes (drop 20 out) = 7"
    using decode_dsa_signature_width [OF small] by auto
  ultimately show ?thesis
    using big small by simp
qed

text \<open>
  C4: for every attribute map \<open>M\<close> whose keys BASE, PRIME and SUBPRIME hold the minimal
  big-endian encodings of non-negative integers, decoding the encoding of \<open>M\<close> gives
  these three entries of \<open>M\<close> back, unchanged; so it gives \<open>M\<close> itself when \<open>M\<close>, as a
  map of domain parameters, has no other key.
\<close>

theorem domain_parameters_round_trip:
  assumes "M BASE = Some gb" "M PRIME = Some pb" "M SUBPRIME = Some qb"
    and "biginteger vg = Inr gb" "biginteger vp = Inr pb" "biginteger vq = Inr qb"
    and "length gb \<le> PY_SSIZE_T_MAX" "length pb \<le> PY_SSIZE_T_MAX" "length qb \<le> PY_SSIZE_T_MAX"
  shows "and_then (encode_dsa_domain_parameters M) decode_dsa_domain_parameters
           = Inr (M |` {BASE, PRIME, SUBPRIME}) \<and>
         (dom M = {BASE, PRIME, SUBPRIME} \<longrightarrow>
            and_then (encode_dsa_domain_parameters M) decode_dsa_domain_parameters = Inr M)"
proof -
  have "and_then (encode_dsa_domain_parameters M) decode_dsa_domain_parameters =
      Inr [BASE \<mapsto> gb, PRIME \<mapsto> pb, SUBPRIME \<mapsto> qb]"
    using domain_parameters_normalized [OF assms(1-3) assms(7-9)]
    by (simp add: biginteger_idem [OF assms(4)] biginteger_idem [OF assms(5)]
          biginteger_idem [OF assms(6)])
  moreover have "[BASE \<mapsto> gb, PRIME \<mapsto> pb, SUBPRIME \<mapsto> qb] = M |` {BASE, PRIME, SUBPRIME}"
  proof
    fix k
    show "[BASE \<mapsto> gb, PRIME \<mapsto> pb, SUBPRIME \<mapsto> qb] k = (M |` {BASE, PRIME, SUBPRIME}) k"
      using assms(1-3) by (cases k) (simp_all add: restrict_map_def)
  qed
  moreover have "M |` {BASE, PRIME, SUBPRIME} = M" if "dom M = {BASE, PRIME, SUBPRIME}"
  proof
    fix k
    show "(M |` {BASE, PRIME, SUBPRIME}) k = M k"
      using that by (cases "M k") (auto simp: restrict_map_def)
  qed
  ultimately show ?thesis
    by simp
qed

theorem domain_parameters_round_trip_witness:
  "biginteger 2 = Inr [0x02] \<and> biginteger 33001 = Inr [0x80, 0xE9] \<and> biginteger 0 = Inr [0x00] \<and>
   dom [BASE \<mapsto> [0x02], PRIME \<mapsto> [0x80, 0xE9], SUBPRIME \<mapsto> [0x00 :: byte]]
     = {BASE, PRIME, SUBPRIME} \<and>
   and_then (encode_dsa_domain_parameters
               [BASE \<mapsto> [0x02], PRIME \<mapsto> [0x80, 0xE9], SUBPRIME \<mapsto> [0x00]])
     decode_dsa_domain_parameters
     = Inr [BASE \<mapsto> [0x02], PRIME \<mapsto> [0x80, 0xE9], SUBPRIME \<mapsto> [0x00]]"
proof -
  have enc: "biginteger 2 = Inr [0x02]" "biginteger 33001 = Inr [0x80, 0xE9]"
    "biginteger 0 = Inr [0x00]"
    by code_simp+
  have d: "dom [BASE \<mapsto> [0x02], PRIME \<mapsto> [0x80, 0xE9], SUBPRIME \<mapsto> [0x00 :: byte]]
     = {BASE, PRIME, SUBPRIME}"
    by auto
  have "and_then (encode_dsa_domain_parameters
               [BASE \<mapsto> [0x02], PRIME \<mapsto> [0x80, 0xE9], SUBPRIME \<mapsto> [0x00]])
     decode_dsa_domain_parameters
     = Inr [BASE \<mapsto> [0x02], PRIME \<mapsto> [0x80, 0xE9], SUBPRIME \<mapsto> [0x00]]"
    using d domain_parameters_round_trip
        [of "[BASE \<mapsto> [0x02], PRIME \<mapsto> [0x80, 0xE9], SUBPRIME \<mapsto> [0x00]]"
            "[0x02]" "[0x80, 0xE9]" "[0x00]" 2 33001 0, OF _ _ _ enc]
    by (simp add: PY_SSIZE_T_MAX_def)
  with enc d show ?thesis
    by simp
qed

text \<open>
  C5: for every non-negative integer \<open>v\<close> that fits in \<open>N\<close> octets, with \<open>e\<close> its minimal
  big-endian encoding, decoding the encoding of the public key \<open>{VALUE: e}\<close> gives
  \<open>e\<close> back; \<open>v = 0\<close> is included.
\<close>

theorem public_key_round_trip:
  assumes "0 \<le> v" "v < 256 ^ N" "N \<le> PY_SSIZE_T_MAX"
  shows "\<exists>e. biginteger v = Inr e \<and>
           and_then (encode_dsa_public_key [VALUE \<mapsto> e]) decode_dsa_public_key = Inr e"
proof -
  obtain e where e: "biginteger v = Inr e"
    using biginteger_nonneg [OF assms(1)] by blast
  have val: "int_from_bytes e = v"
    using biginteger_value [OF e] by simp
  obtain der where der: "encode_DSAPublicKey v = Inr der"
    using encode_DSAPublicKey_ok [OF assms] by blast
  have "decode_DSAPublicKey (der @ []) = Inr (v, [])"
    using der assms(1) by (rule decode_DSAPublicKey_encode)
  then have "decode_dsa_public_key der = Inr e"
    by (simp add: decode_dsa_public_key_def e)
  then have "and_then (encode_dsa_public_key [VALUE \<mapsto> e]) decode_dsa_public_key = Inr e"
    by (simp add: encode_dsa_public_key_def val der)
  with e show ?thesis
    by blast
qed

theorem public_key_round_trip_witness:
  "biginteger 0 = Inr [0x00] \<and>
   and_then (encode_dsa_public_key [VALUE \<mapsto> [0x00]]) decode_dsa_public_key = Inr [0x00] \<and>
   biginteger 33000 = Inr [0x80, 0xE8] \<and>
   and_then (encode_dsa_public_key [VALUE \<mapsto> [0x80, 0xE8]]) decode_dsa_public_key
     = Inr [0x80, 0xE8]"
proof -
  have zero: "biginteger 0 = Inr [0x00]" and other: "biginteger 33000 = Inr [0x80, 0xE8]"
    by code_simp+
  show ?thesis
    using zero other public_key_round_trip [of 0 1] public_key_round_trip [of 33000 2]
    by (simp add: PY_SSIZE_T_MAX_def)
qed

text \<open>
  C6: \<open>encode_dsa_domain_parameters\<close> fails with MISSING_ATTRIBUTE exactly when one of
  the keys BASE, PRIME, SUBPRIME is absent from the attribute map, and
  \<open>encode_dsa_public_key\<close> fails with MISSING_ATTRIBUTE exactly when VALUE is absent.
\<close>

theorem missing_attribute_iff:
  "(encode_dsa_domain_parameters obj = Inl MISSING_ATTRIBUTE \<longleftrightarrow>
      obj BASE = None \<or> obj PRIME = None \<or> obj SUBPRIME = None) \<and>
   (encode_dsa_public_key key = Inl MISSING_ATTRIBUTE \<longleftrightarrow> key VALUE = None)"
proof
  show "encode_dsa_domain_parameters obj = Inl MISSING_ATTRIBUTE \<longleftrightarrow>
      obj BASE = None \<or> obj PRIME = None \<or> obj SUBPRIME = None"
  proof (cases "obj BASE = None \<or> obj PRIME = None \<or> obj SUBPRIME = None")
    case True
    then show ?thesis
      by (cases "obj BASE"; cases "obj PRIME"; cases "obj SUBPRIME")
         (simp_all add: encode_dsa_domain_parameters_def)
  next
    case False
    then obtain b pb sb where keys: "obj BASE = Some b" "obj PRIME = Some pb" "obj SUBPRIME = Some sb"
      by auto
    have "encode_sequence [int_from_bytes pb, int_from_bytes sb, int_from_bytes b]
            \<noteq> Inl MISSING_ATTRIBUTE"
      using encode_sequence_error
        [of "[int_from_bytes pb, int_from_bytes sb, int_from_bytes b]" MISSING_ATTRIBUTE]
      by (auto simp: int_from_bytes_nonneg)
    with False show ?thesis
      by (simp add: encode_dsa_domain_parameters_def keys encode_Dss_Parms_def)
  qed
next
  show "encode_dsa_public_key key = Inl MISSING_ATTRIBUTE \<longleftrightarrow> key VALUE = None"
  proof (cases "key VALUE")
    case None
    then show ?thesis by (simp add: encode_dsa_public_key_def)
  next
    case (Some v)
    have "encode_integer (int_from_bytes v) \<noteq> Inl MISSING_ATTRIBUTE"
      using encode_integer_error [of "int_from_bytes v" MISSING_ATTRIBUTE]
      by (auto simp: int_from_bytes_nonneg)
    then show ?thesis
      by (simp add: encode_dsa_public_key_def Some encode_DSAPublicKey_def)
  qed
qed

theorem missing_attribute_iff_witness:
  "encode_dsa_domain_parameters [PRIME \<mapsto> [7], SUBPRIME \<mapsto> [3]] = Inl MISSING_ATTRIBUTE \<and>
   encode_dsa_domain_parameters [BASE \<mapsto> [2], PRIME \<mapsto> [7], SUBPRIME \<mapsto> [3]]
     \<noteq> Inl MISSING_ATTRIBUTE \<and>
   encode_dsa_public_key Map.empty = Inl MISSING_ATTRIBUTE \<and>
   encode_dsa_public_key [VALUE \<mapsto> [5]] \<noteq> Inl MISSING_ATTRIBUTE"
  using missing_attribute_iff [of "[PRIME \<mapsto> [7], SUBPRIME \<mapsto> [3]]" Map.empty]
    missing_attribute_iff [of "[BASE \<mapsto> [2], PRIME \<mapsto> [7], SUBPRIME \<mapsto> [3]]" "[VALUE \<mapsto> [5]]"]
  by simp

text \<open>
  C7: \<open>decode_dsa_signature\<close> applied to the DER encoding of Dss-Sig-Value{r=1, s=1}
  returns 40 octets: 19 zero octets followed by 0x01, twice.
\<close>

theorem decode_dsa_signature_one_one:
  "encode_Dss_Sig_Value \<lparr>r = 1, s = 1\<rparr> = Inr [0x30, 0x06, 0x02, 0x01, 0x01, 0x02, 0x01, 0x01] \<and>
   decode_dsa_signature [0x30, 0x06, 0x02, 0x01, 0x01, 0x02, 0x01, 0x01] =
     Inr (replicate 19 0 @ [1] @ replicate 19 0 @ [1]) \<and>
   length (replicate 19 (0::byte) @ [1] @ replicate 19 0 @ [1]) = 40"
  by code_simp

text \<open>
  C8: a VALUE buffer that represents the integer 0 is encoded by \<open>encode_dsa_public_key\<close>
  as the DER INTEGER 02 01 00, whose content is the single octet 0x00. An empty buffer is
  the integer zero: for any attribute it gives the same encoding as the buffer 00.
\<close>

theorem zero_public_key:
  "(int_from_bytes v = 0 \<longrightarrow>
      encode_dsa_public_key (key(VALUE \<mapsto> v)) = Inr [0x02, 0x01, 0x00]) \<and>
   encodeValue 0 = Inr [0x00] \<and>
   int_from_bytes [] = 0 \<and>
   encode_dsa_public_key (key(VALUE \<mapsto> [])) = Inr [0x02, 0x01, 0x00] \<and>
   encode_dsa_public_key (key(a \<mapsto> [])) = encode_dsa_public_key (key(a \<mapsto> [0x00])) \<and>
   encode_dsa_domain_parameters (obj(a \<mapsto> [])) =
     encode_dsa_domain_parameters (obj(a \<mapsto> [0x00]))"
proof -
  have zero: "encode_integer 0 = Inr [0x02, 0x01, 0x00]"
    by code_simp
  have one: "int_from_bytes [0x00] = 0"
    by (simp add: int_from_bytes_Cons)
  have item: "and_then (getitem (m(a \<mapsto> [])) k) (\<lambda>x. f (int_from_bytes x)) =
              and_then (getitem (m(a \<mapsto> [0x00])) k) (\<lambda>x. f (int_from_bytes x))"
    for m :: "Attribute \<rightharpoonup> bytes" and k and f :: "int \<Rightarrow> error + bytes"
    by (simp add: getitem_def one)
  have "encode_dsa_public_key (key(a \<mapsto> [])) = encode_dsa_public_key (key(a \<mapsto> [0x00]))"
    unfolding encode_dsa_public_key_def by (rule item)
  moreover have "encode_dsa_domain_parameters (obj(a \<mapsto> [])) =
      encode_dsa_domain_parameters (obj(a \<mapsto> [0x00]))"
    by (cases a) (simp_all add: encode_dsa_domain_parameters_def getitem_def one)
  moreover have "encodeValue 0 = Inr [0x00]"
    by (simp add: encodeValue_def)
  ultimately show ?thesis
    by (simp add: encode_dsa_public_key_def encode_DSAPublicKey_def zero)
qed

theorem zero_public_key_witness:
  "int_from_bytes [0x00, 0x00] = 0 \<and>
   encode_dsa_public_key [VALUE \<mapsto> [0x00, 0x00]] = Inr [0x02, 0x01, 0x00] \<and>
   encode_dsa_domain_parameters [BASE \<mapsto> [], PRIME \<mapsto> [0x07], SUBPRIME \<mapsto> [0x03]] =
     encode_dsa_domain_parameters [BASE \<mapsto> [0x00], PRIME \<mapsto> [0x07], SUBPRIME \<mapsto> [0x03]]"
  using zero_public_key [of "[0x00, 0x00]" Map.empty BASE "[PRIME \<mapsto> [0x07], SUBPRIME \<mapsto> [0x03]]"]
  by (simp add: int_from_bytes_Cons fun_upd_twist)

text \<open>
  C9: the three decoders discard the octets that the DER decoder returns after the
  decoded value. If \<open>d\<close> starts with a structure the DER decoder accepts, then for every
  \<open>t\<close> the DER decoder accepts \<open>d @ t\<close> too, handing back \<open>t\<close> after the rest, and each
  decoder returns for \<open>d @ t\<close> what it returns for \<open>d\<close>; so a successful decoding of
  \<open>d\<close> is a successful decoding of \<open>d @ t\<close> with the same result.
\<close>

theorem trailing_octets_discarded:
  "(decode_Dss_Parms d = Inr (params, rest) \<longrightarrow>
      decode_Dss_Parms (d @ t) = Inr (params, rest @ t) \<and>
      decode_dsa_domain_parameters (d @ t) = decode_dsa_domain_parameters d) \<and>
   (decode_DSAPublicKey d = Inr (y, rest) \<longrightarrow>
      decode_DSAPublicKey (d @ t) = Inr (y, rest @ t) \<and>
      decode_dsa_public_key (d @ t) = decode_dsa_public_key d) \<and>
   (decode_Dss_Sig_Value d = Inr (asn1, rest) \<longrightarrow>
      decode_Dss_Sig_Value (d @ t) = Inr (asn1, rest @ t) \<and>
      decode_dsa_signature (d @ t) = decode_dsa_signature d) \<and>
   (decode_dsa_domain_parameters d = Inr m \<longrightarrow> decode_dsa_domain_parameters (d @ t) = Inr m) \<and>
   (decode_dsa_public_key d = Inr b \<longrightarrow> decode_dsa_public_key (d @ t) = Inr b) \<and>
   (decode_dsa_signature d = Inr b \<longrightarrow> decode_dsa_signature (d @ t) = Inr b)"
proof -
  have parms: "decode_dsa_domain_parameters (d @ t) = decode_dsa_domain_parameters d"
    if "decode_Dss_Parms d = Inr (x, r1)" for x r1
    using that decode_Dss_Parms_append [OF that, of t]
    by (simp add: decode_dsa_domain_parameters_def)
  have key: "decode_dsa_public_key (d @ t) = decode_dsa_public_key d"
    if "decode_DSAPublicKey d = Inr (x, r1)" for x r1
    using that decode_DSAPublicKey_append [OF that, of t]
    by (simp add: decode_dsa_public_key_def)
  have sig: "decode_dsa_signature (d @ t) = decode_dsa_signature d"
    if "decode_Dss_Sig_Value d = Inr (x, r1)" for x r1
    using that decode_Dss_Sig_Value_append [OF that, of t]
    by (simp add: decode_dsa_signature_def)
  have "decode_dsa_domain_parameters (d @ t) = Inr m" if "decode_dsa_domain_parameters d = Inr m"
    using that parms decode_dsa_domain_parameters_Inr [OF that] by auto
  moreover have "decode_dsa_public_key (d @ t) = Inr b" if "decode_dsa_public_key d = Inr b"
    using that key decode_dsa_public_key_Inr [OF that] by auto
  moreover have "decode_dsa_signature (d @ t) = Inr b" if "decode_dsa_signature d = Inr b"
    using that sig decode_dsa_signature_Inr [OF that] by auto
  ultimately show ?thesis
    using parms key sig
    by (simp add: decode_Dss_Parms_append decode_DSAPublicKey_append decode_Dss_Sig_Value_append)
qed

theorem trailing_octets_discarded_witness:
  "decode_Dss_Parms [0x30, 0x09, 0x02, 0x01, 0x07, 0x02, 0x01, 0x03, 0x02, 0x01, 0x02]
     = Inr (\<lparr>p = 7, q = 3, g = 2\<rparr>, []) \<and>
   decode_dsa_domain_parameters
       [0x30, 0x09, 0x02, 0x01, 0x07, 0x02, 0x01, 0x03, 0x02, 0x01, 0x02]
     = Inr [BASE \<mapsto> [0x02], PRIME \<mapsto> [0x07], SUBPRIME \<mapsto> [0x03]] \<and>
   decode_Dss_Parms
       ([0x30, 0x09, 0x02, 0x01, 0x07, 0x02, 0x01, 0x03, 0x02, 0x01, 0x02] @ [0xDE, 0xAD])
     = Inr (\<lparr>p = 7, q = 3, g = 2\<rparr>, [0xDE, 0xAD]) \<and>
   decode_dsa_domain_parameters
       ([0x30, 0x09, 0x02, 0x01, 0x07, 0x02, 0x01, 0x03, 0x02, 0x01, 0x02] @ [0xDE, 0xAD])
     = Inr [BASE \<mapsto> [0x02], PRIME \<mapsto> [0x07], SUBPRIME \<mapsto> [0x03]] \<and>
   decode_DSAPublicKey [0x02, 0x01, 0x05] = Inr (5, []) \<and>
   decode_dsa_public_key [0x02, 0x01, 0x05] = Inr [0x05] \<and>
   decode_DSAPublicKey ([0x02, 0x01, 0x05] @ [0xDE, 0xAD]) = Inr (5, [0xDE, 0xAD]) \<and>
   decode_dsa_public_key ([0x02, 0x01, 0x05] @ [0xDE, 0xAD]) = Inr [0x05] \<and>
   decode_Dss_Sig_Value [0x30, 0x06, 0x02, 0x01, 0x01, 0x02, 0x01, 0x01]
     = Inr (\<lparr>r = 1, s = 1\<rparr>, []) \<and>
   decode_dsa_signature [0x30, 0x06, 0x02, 0x01, 0x01, 0x02, 0x01, 0x01]
     = Inr (replicate 19 0 @ [1] @ replicate 19 0 @ [1]) \<and>
   decode_Dss_Sig_Value ([0x30, 0x06, 0x02, 0x01, 0x01, 0x02, 0x01, 0x01] @ [0xDE, 0xAD])
     = Inr (\<lparr>r = 1, s = 1\<rparr>, [0xDE, 0xAD]) \<and>
   decode_dsa_signature ([0x30, 0x06, 0x02, 0x01, 0x01, 0x02, 0x01, 0x01] @ [0xDE, 0xAD])
     = Inr (replicate 19 0 @ [1] @ replicate 19 0 @ [1])"
proof -
  let ?parms = "[0x30, 0x09, 0x02, 0x01, 0x07, 0x02, 0x01, 0x03, 0x02, 0x01, 0x02] :: bytes"
  let ?key = "[0x02, 0x01, 0x05] :: bytes"
  let ?sig = "[0x30, 0x06, 0x02, 0x01, 0x01, 0x02, 0x01, 0x01] :: bytes"
  let ?t = "[0xDE, 0xAD] :: bytes"
  have parms: "decode_Dss_Parms ?parms = Inr (\<lparr>p = 7, q = 3, g = 2\<rparr>, [])"
    by code_simp
  have big: "biginteger 2 = Inr [0x02]" "biginteger 7 = Inr [0x07]" "biginteger 3 = Inr [0x03]"
    by code_simp+
  have parms_map: "decode_dsa_domain_parameters ?parms
      = Inr [BASE \<mapsto> [0x02], PRIME \<mapsto> [0x07], SUBPRIME \<mapsto> [0x03]]"
    by (simp add: decode_dsa_domain_parameters_def parms big)
  have key: "decode_DSAPublicKey ?key = Inr (5, [])"
    and key_bytes: "decode_dsa_public_key ?key = Inr [0x05]"
    by code_simp+
  have sig: "decode_Dss_Sig_Value ?sig = Inr (\<lparr>r = 1, s = 1\<rparr>, [])"
    and sig_bytes: "decode_dsa_signature ?sig = Inr (replicate 19 0 @ [1] @ replicate 19 0 @ [1])"
    by code_simp+
  note inst = trailing_octets_discarded
      [where d = ?parms and params = "\<lparr>p = 7, q = 3, g = 2\<rparr>" and rest = "[]" and t = ?t
         and m = "[BASE \<mapsto> [0x02], PRIME \<mapsto> [0x07], SUBPRIME \<mapsto> [0x03]]"]
    trailing_octets_discarded
      [where d = ?key and y = 5 and rest = "[]" and t = ?t and b = "[0x05]"]
    trailing_octets_discarded
      [of ?sig _ "[]" ?t _ "\<lparr>r = 1, s = 1\<rparr>" _ "replicate 19 0 @ [1] @ replicate 19 0 @ [1]"]
  show ?thesis
    using parms parms_map key key_bytes sig sig_bytes inst
    by (simp del: replicate.simps)
qed

text \<open>
  C10: when the DER input decodes as a Dss-Sig-Value with a negative \<open>r\<close> or \<open>s\<close>,
  \<open>decode_dsa_signature\<close> fails: the conversion to 20 unsigned octets rejects the value.
  So every result it returns holds the 20-octet forms of two non-negative integers.
\<close>

theorem decode_dsa_signature_negative:
  assumes "decode_Dss_Sig_Value der = Inr (asn1, rest)"
  shows "(r asn1 < 0 \<or> s asn1 < 0 \<longrightarrow> decode_dsa_signature der = Inl OVERFLOW) \<and>
         (\<forall>out. decode_dsa_signature der = Inr out \<longrightarrow>
            0 \<le> r asn1 \<and> 0 \<le> s asn1 \<and>
            int_from_bytes (take 20 out) = r asn1 \<and> int_from_bytes (drop 20 out) = s asn1)"
proof (intro conjI impI allI)
  assume neg: "r asn1 < 0 \<or> s asn1 < 0"
  show "decode_dsa_signature der = Inl OVERFLOW"
  proof (cases "r asn1 < 0")
    case True
    then show ?thesis
      by (simp add: decode_dsa_signature_unfold [OF assms] int_to_bytes_overflow)
  next
    case False
    with neg have "int_to_bytes (s asn1) 20 = Inl OVERFLOW"
      by (simp add: int_to_bytes_overflow)
    then show ?thesis
      using int_to_bytes_cases [of "r asn1" 20]
      by (auto simp: decode_dsa_signature_unfold [OF assms])
  qed
next
  fix out
  assume "decode_dsa_signature der = Inr out"
  then obtain rb sb where rb: "int_to_bytes (r asn1) 20 = Inr rb"
    and sb: "int_to_bytes (s asn1) 20 = Inr sb" and out: "out = rb @ sb"
    by (auto simp: decode_dsa_signature_unfold [OF assms] and_then_eq_Inr)
  have r: "0 \<le> r asn1" "r asn1 < 256 ^ 20" "rb = be_bytes 20 (r asn1)"
    using int_to_bytes_Inr [OF rb] by simp_all
  have s: "0 \<le> s asn1" "s asn1 < 256 ^ 20" "sb = be_bytes 20 (s asn1)"
    using int_to_bytes_Inr [OF sb] by simp_all
  have "take 20 out = rb" "drop 20 out = sb"
    by (simp_all add: out r(3) del: be_bytes.simps)
  then have "int_from_bytes (take 20 out) = r asn1" "int_from_bytes (drop 20 out) = s asn1"
    using r s by (simp_all add: int_from_bytes_be_bytes_id del: be_bytes.simps)
  then show "0 \<le> r asn1" "0 \<le> s asn1"
    "int_from_bytes (take 20 out) = r asn1" "int_from_bytes (drop 20 out) = s asn1"
    using r(1) s(1) by simp_all
qed

theorem decode_dsa_signature_negative_witness:
  "decode_Dss_Sig_Value [0x30, 0x06, 0x02, 0x01, 0xFF, 0x02, 0x01, 0x01]
     = Inr (\<lparr>r = - 1, s = 1\<rparr>, []) \<and>
   decode_dsa_signature [0x30, 0x06, 0x02, 0x01, 0xFF, 0x02, 0x01, 0x01] = Inl OVERFLOW \<and>
   decode_Dss_Sig_Value [0x30, 0x06, 0x02, 0x01, 0x01, 0x02, 0x01, 0x80]
     = Inr (\<lparr>r = 1, s = - 128\<rparr>, []) \<and>
   decode_dsa_signature [0x30, 0x06, 0x02, 0x01, 0x01, 0x02, 0x01, 0x80] = Inl OVERFLOW"
proof -
  have first: "decode_Dss_Sig_Value [0x30, 0x06, 0x02, 0x01, 0xFF, 0x02, 0x01, 0x01]
     = Inr (\<lparr>r = - 1, s = 1\<rparr>, [])"
    by code_simp
  have second: "decode_Dss_Sig_Value [0x30, 0x06, 0x02, 0x01, 0x01, 0x02, 0x01, 0x80]
     = Inr (\<lparr>r = 1, s = - 128\<rparr>, [])"
    by code_simp
  show ?thesis
    using first second decode_dsa_signature_negative [OF first]
      decode_dsa_signature_negative [OF second]
    by simp
qed

end
